theory Spec2Isabelle
  imports
    Main
    "HOL-Library.Finite_Map"
    "HOL-Library.Char_ord"
    "HOL-Library.List_Lexorder"
    "HOL-Library.Signed_Division"
begin

section \<open>Constants of util.hpp\<close>

definition CACHECTR_NO_STORE :: string where "CACHECTR_NO_STORE = ''no-store''"
definition CACHECTR_NO_CACHE :: string where "CACHECTR_NO_CACHE = ''no-cache''"
definition CACHECTR_REVALIDATE :: string where "CACHECTR_REVALIDATE = ''must-revalidate''"
definition CACHECTR_PROXY_REVALIDATE :: string where
  "CACHECTR_PROXY_REVALIDATE = ''proxy-revalidate''"
definition CACHECTR_PRIVATE :: string where "CACHECTR_PRIVATE = ''private''"
definition CACHECTR_PUBLIC :: string where "CACHECTR_PUBLIC = ''public''"
definition CACHECTR_MAXAGE :: string where "CACHECTR_MAXAGE = ''max-age=''"
definition CACHECTR_SMAXAGE :: string where "CACHECTR_SMAXAGE = ''s-maxage=''"

definition HEADER_TRANSFER :: string where "HEADER_TRANSFER = ''Transfer-Encoding''"
definition HEADER_CHUNCK :: string where "HEADER_CHUNCK = ''chunked''"
definition HEADER_CONTENT_LEN :: string where "HEADER_CONTENT_LEN = ''Content-Length''"
definition HEADER_DATE :: string where "HEADER_DATE = ''Date''"
definition HEADER_EXPIRE :: string where "HEADER_EXPIRE = ''Expires''"
definition HEADER_LAST_MODIFY :: string where "HEADER_LAST_MODIFY = ''Last-Modified''"
definition HEADER_CACHECTRL :: string where "HEADER_CACHECTRL = ''Cache-Control''"

definition CACHE_PUBLIC :: int where "CACHE_PUBLIC = 1"
definition CACHE_PRIVATE :: int where "CACHE_PRIVATE = 2"
definition CACHE_IMMUTABLE :: int where "CACHE_IMMUTABLE = 3"
definition CACHE_MUST_REVALIDATE :: int where "CACHE_MUST_REVALIDATE = 4"
definition CACHE_NO_STORE :: int where "CACHE_NO_STORE = 5"
definition CACHE_NORMAL :: int where "CACHE_NORMAL = 6"

datatype CacheStatus =
  NOT_IN_CACHE | EXPIRED | REQUIRES_VALIDATION | VALID | NOT_CACHEABLE | WILL_EXPIRE | REVALIDATION

section \<open>The Response object (response.hpp)\<close>

text \<open>
  The fields of class \<open>Response\<close> with their types; \<open>header\<close> is a \<open>std::map\<close>, kept
  here as an association list in ascending key order, which is the order in which the
  C++ map is iterated. The field \<open>received_time\<close> is never read or written by the code
  and is left out. \<open>cache_mode\<close> and \<open>cache_visibility\<close> are plain \<open>int\<close>s in the source
  (\<open>cache_mode\<close> starts at 0, which is none of the named modes), so they are integers here.
\<close>

record Response =
  status_code :: int
  status_message :: string
  http_version :: string
  header :: "(string \<times> string) list"
  body :: string
  expire_time :: string
  is_chunked :: bool
  content_length :: int
  no_store :: bool
  no_cache :: bool
  must_revalidate :: bool
  max_age :: int
  cache_mode :: int
  cache_visibility :: int

text \<open>The member initialisers of the class: the state of a freshly constructed object.\<close>

definition Response_init :: Response where
  "Response_init =
     \<lparr>status_code = 0, status_message = [], http_version = [], header = [], body = [],
      expire_time = [], is_chunked = False, content_length = - 1, no_store = False,
      no_cache = False, must_revalidate = False, max_age = - 1, cache_mode = 0,
      cache_visibility = CACHE_PUBLIC\<rparr>"

section \<open>Time\<close>

text \<open>
  The code reads HTTP dates with \<open>get_time\<close> and \<open>mktime\<close> and writes them with \<open>gmtime\<close>
  and \<open>put_time\<close>. These belong to the C++ library, not to the repository, and their result
  depends on the process's time zone; they are taken as parameters: \<open>mk_time s\<close> is the
  \<open>time_t\<close> that \<open>get_time\<close> followed by \<open>mktime\<close> yields for the text \<open>s\<close> (whatever it does
  on text that is no date), \<open>fmt_time t\<close> the text \<open>put_time\<close> prints for \<open>t\<close>.
\<close>

record timelib =
  mk_time :: "string \<Rightarrow> int"
  fmt_time :: "int \<Rightarrow> string"

text \<open>
  A \<open>system_clock::time_point\<close> and the difference of two are signed 64-bit counts of
  nanoseconds; their arithmetic wraps around (\<open>wrap64\<close>). \<open>chrono::seconds\<close> become
  nanoseconds by a multiplication in that type (\<open>ns_of_seconds\<close>), which is also what
  \<open>from_time_t\<close> does to a \<open>time_t\<close>: a date after 11 April 2262 does not fit and comes
  out as another instant, for the last second of the year 9999 an instant in the year
  1816. \<open>to_time_t\<close> divides by 1000000000 and rounds towards zero.
\<close>

definition wrap64 :: "int \<Rightarrow> int" where
  "wrap64 x = (x + 2 ^ 63) mod 2 ^ 64 - 2 ^ 63"

definition ns_of_seconds :: "int \<Rightarrow> int" where
  "ns_of_seconds sec = wrap64 (sec * 1000000000)"

definition from_time_t :: "int \<Rightarrow> int" where
  "from_time_t t = ns_of_seconds t"

definition to_time_t :: "int \<Rightarrow> int" where
  "to_time_t tp = tp sdiv 1000000000"

section \<open>Strings and streams of the C++ library\<close>

text \<open>
  The exceptions that the code meets: \<open>std::stoi\<close> throws \<open>invalid_argument\<close> and
  \<open>out_of_range\<close>, \<open>substr\<close> throws \<open>out_of_range\<close>, \<open>parseResponse\<close> throws \<open>runtime_error\<close>.
  A function that can throw returns a sum, with the exception on the left.
\<close>

datatype cpp_error = invalid_argument | out_of_range | runtime_error

definition CR :: char where "CR = CHR 0x0D"
definition LF :: char where "LF = CHR 0x0A"
definition SP :: char where "SP = CHR '' ''"

text \<open>
  \<open>isspace\<close> and \<open>isdigit\<close> of the classic locale; characters are ordered by their code.
\<close>

definition isspace :: "char \<Rightarrow> bool" where
  "isspace c = (c = SP \<or> c = CHR 0x09 \<or> c = LF \<or> c = CHR 0x0B \<or> c = CHR 0x0C \<or> c = CR)"

definition isdigit :: "char \<Rightarrow> bool" where
  "isdigit c = (CHR ''0'' \<le> c \<and> c \<le> CHR ''9'')"

definition digit_val :: "char \<Rightarrow> int" where
  "digit_val c = int (of_char c) - 48"

definition digits_val :: "string \<Rightarrow> int" where
  "digits_val ds = foldl (\<lambda>a c. 10 * a + digit_val c) 0 ds"

definition INT_MAX :: int where "INT_MAX = 2147483647"
definition INT_MIN :: int where "INT_MIN = - 2147483648"

text \<open>
  \<open>getline(stream, line, delim)\<close> on a stream whose unread text is \<open>s\<close>: it fails when
  nothing is left, else it yields the text before the first delimiter (all of it when
  there is none) and leaves what follows the delimiter. After a line that ran into the
  end of the text nothing is left, so the next call fails, as the \<open>eofbit\<close> makes it do.
\<close>

definition getline :: "char \<Rightarrow> string \<Rightarrow> (string \<times> string) option" where
  "getline d s =
     (if s = [] then None
      else Some (takeWhile (\<lambda>c. c \<noteq> d) s, drop 1 (dropWhile (\<lambda>c. c \<noteq> d) s)))"

text \<open>
  \<open>s.find(pat)\<close> is the first position at which \<open>pat\<close> occurs in \<open>s\<close>, and \<open>npos\<close> (here
  \<open>None\<close>) when it does not occur; \<open>find_char\<close> is the same for one character.
\<close>

definition starts_with :: "string \<Rightarrow> string \<Rightarrow> bool" where
  "starts_with pat s = (take (length pat) s = pat)"

fun str_find :: "string \<Rightarrow> string \<Rightarrow> nat option" where
  "str_find [] pat = (if pat = [] then Some 0 else None)"
| "str_find (c # cs) pat =
     (if starts_with pat (c # cs) then Some 0 else map_option Suc (str_find cs pat))"

definition find_char :: "string \<Rightarrow> char \<Rightarrow> nat option" where
  "find_char s c = (if c \<in> set s then Some (length (takeWhile (\<lambda>x. x \<noteq> c) s)) else None)"

text \<open>
  \<open>ltrim c s\<close> is \<open>s.erase(0, s.find_first_not_of(c))\<close> and \<open>rtrim c s\<close> is
  \<open>s.erase(s.find_last_not_of(c) + 1)\<close>; on a text of \<open>c\<close>s only both erase all of it
  (\<open>npos\<close> as a length, and \<open>npos + 1 = 0\<close> as a position). \<open>s.substr(pos)\<close> throws when
  \<open>pos\<close> is beyond the end.
\<close>

definition ltrim :: "char \<Rightarrow> string \<Rightarrow> string" where
  "ltrim c s = dropWhile (\<lambda>x. x = c) s"

definition rtrim :: "char \<Rightarrow> string \<Rightarrow> string" where
  "rtrim c s = rev (dropWhile (\<lambda>x. x = c) (rev s))"

definition substr :: "string \<Rightarrow> nat \<Rightarrow> cpp_error + string" where
  "substr s pos = (if pos > length s then Inl out_of_range else Inr (drop pos s))"

text \<open>
  \<open>std::stoi(s)\<close> runs \<open>strtol\<close> in base 10: white space is skipped, then a sign and the
  digits are read; it throws \<open>invalid_argument\<close> when there is no digit and
  \<open>out_of_range\<close> when the value is no \<open>int\<close>. \<open>extract_int s\<close> is \<open>stream >> n\<close> for an \<open>int n\<close>,
  the white space already skipped: the value stored in \<open>n\<close>, whether \<open>failbit\<close> is set, and
  the unread text. With no digit it stores 0, with a value that is no \<open>int\<close> the nearest
  bound, and sets \<open>failbit\<close> in both cases.
\<close>

definition read_sign :: "string \<Rightarrow> bool \<times> string" where
  "read_sign s =
     (case s of
        [] \<Rightarrow> (False, s)
      | c # cs \<Rightarrow> if c = CHR ''-'' then (True, cs) else if c = CHR ''+'' then (False, cs)
                  else (False, s))"

definition stoi :: "string \<Rightarrow> cpp_error + int" where
  "stoi s =
     (case read_sign (dropWhile isspace s) of
        (neg, s2) \<Rightarrow>
          let ds = takeWhile isdigit s2 in
          if ds = [] then Inl invalid_argument
          else let v = (if neg then - digits_val ds else digits_val ds)
               in if v < INT_MIN \<or> INT_MAX < v then Inl out_of_range else Inr v)"

definition extract_int :: "string \<Rightarrow> int \<times> bool \<times> string" where
  "extract_int s =
     (case read_sign s of
        (neg, s2) \<Rightarrow>
          let ds = takeWhile isdigit s2; rest = dropWhile isdigit s2 in
          if ds = [] then (0, True, rest)
          else let v = (if neg then - digits_val ds else digits_val ds)
               in if v < INT_MIN then (INT_MIN, True, rest)
                  else if INT_MAX < v then (INT_MAX, True, rest)
                  else (v, False, rest))"

text \<open>
  \<open>stream << n\<close> for an \<open>int n\<close> writes \<open>show_int n\<close>.
\<close>

definition digit_char :: "nat \<Rightarrow> char" where
  "digit_char n = char_of (48 + n)"

function show_nat :: "nat \<Rightarrow> string" where
  "show_nat n = (if n < 10 then [digit_char n] else show_nat (n div 10) @ [digit_char (n mod 10)])"
  by pat_completeness auto
termination
  by (relation "measure id") auto

declare show_nat.simps [simp del]

definition show_int :: "int \<Rightarrow> string" where
  "show_int i = (if i < 0 then CHR ''-'' # show_nat (nat (- i)) else show_nat (nat i))"

section \<open>The header map\<close>

text \<open>
  \<open>header[key] = value\<close> on the map kept as a list in ascending key order: the value of
  a key that is there is replaced, a new key is put at its place in the order.
  \<open>header.find(key)\<close> is \<open>map_of\<close>.
\<close>

fun map_assign :: "string \<Rightarrow> string \<Rightarrow> (string \<times> string) list \<Rightarrow> (string \<times> string) list" where
  "map_assign k v [] = [(k, v)]"
| "map_assign k v ((k', v') # xs) =
     (if k = k' then (k, v) # xs
      else if k < k' then (k, v) # (k', v') # xs
      else (k', v') # map_assign k v xs)"

section \<open>response.cpp\<close>

text \<open>
  The three reads of the status line,
  \<open>status_stream >> http_version >> status_code; getline(status_stream, status_message)\<close>.
  An extraction that finds the stream not good, or only white space, stores nothing and
  sets \<open>failbit\<close>, after which the later reads store nothing either. So the fields keep
  their old values when the line is blank; \<open>status_code\<close> keeps its old value when the
  version runs to the end of the line (\<open>eofbit\<close>) or only white space follows it; and
  \<open>status_message\<close> keeps its old value when the number failed or ran to the end of the
  line.
\<close>

definition parse_status_line :: "Response \<Rightarrow> string \<Rightarrow> Response" where
  "parse_status_line r status_line =
     (let s1 = dropWhile isspace status_line in
      if s1 = [] then r
      else
        let r1 = r\<lparr>http_version := takeWhile (\<lambda>c. \<not> isspace c) s1\<rparr>;
            s2 = dropWhile (\<lambda>c. \<not> isspace c) s1 in
        if s2 = [] then r1
        else
          let s3 = dropWhile isspace s2 in
          if s3 = [] then r1
          else
            (case extract_int s3 of
               (v, failed, s4) \<Rightarrow>
                 let r2 = r1\<lparr>status_code := v\<rparr> in
                 if failed \<or> s4 = [] then r2
                 else r2\<lparr>status_message := takeWhile (\<lambda>c. c \<noteq> LF) s4\<rparr>))"

text \<open>
  One round of the loop of \<open>parseCacheControl\<close>, on the directive as \<open>getline\<close> gave it.
  The state of the loop is the response and the local flag \<open>issmax_age\<close>. A \<open>catch\<close> sets
  \<open>max_age\<close> to \<open>-1\<close>; in the last branch \<open>issmax_age\<close> is set before \<open>stoi\<close> can throw. The
  condition of the last branch is \<open>directive.find(CACHECTR_SMAXAGE)\<close> taken as a truth
  value: true unless the position found is 0.
\<close>

definition process_directive :: "Response \<Rightarrow> bool \<Rightarrow> string \<Rightarrow> Response \<times> bool" where
  "process_directive r issmax_age raw =
     (let directive = rtrim SP (ltrim SP raw) in
      if directive = CACHECTR_NO_STORE then
        (r\<lparr>no_store := True, cache_mode := CACHE_NO_STORE\<rparr>, issmax_age)
      else if directive = CACHECTR_NO_CACHE then
        (r\<lparr>no_cache := True, cache_mode := CACHE_MUST_REVALIDATE\<rparr>, issmax_age)
      else if directive = CACHECTR_REVALIDATE \<or> directive = CACHECTR_PROXY_REVALIDATE then
        (r\<lparr>must_revalidate := True, cache_mode := CACHE_MUST_REVALIDATE\<rparr>, issmax_age)
      else if directive = CACHECTR_PRIVATE then
        (r\<lparr>cache_visibility := CACHE_PRIVATE\<rparr>, issmax_age)
      else if directive = CACHECTR_PUBLIC then
        (r\<lparr>cache_visibility := CACHE_PUBLIC\<rparr>, issmax_age)
      else if str_find directive CACHECTR_MAXAGE = Some 0 then
        (if issmax_age = False then
           (case substr directive 8 of
              Inl e \<Rightarrow> (r\<lparr>max_age := - 1\<rparr>, issmax_age)
            | Inr s \<Rightarrow>
                (case stoi s of
                   Inl e \<Rightarrow> (r\<lparr>max_age := - 1\<rparr>, issmax_age)
                 | Inr n \<Rightarrow> (r\<lparr>max_age := n\<rparr>, issmax_age)))
         else (r, issmax_age))
      else if str_find directive CACHECTR_SMAXAGE \<noteq> Some 0 then
        (if cache_visibility r = CACHE_PUBLIC then
           (case substr directive 9 of
              Inl e \<Rightarrow> (r\<lparr>max_age := - 1\<rparr>, True)
            | Inr s \<Rightarrow>
                (case stoi s of
                   Inl e \<Rightarrow> (r\<lparr>max_age := - 1\<rparr>, True)
                 | Inr n \<Rightarrow> (r\<lparr>max_age := n\<rparr>, True)))
         else (r, issmax_age))
      else (r, issmax_age))"

function directives_loop :: "Response \<Rightarrow> bool \<Rightarrow> string \<Rightarrow> Response" where
  "directives_loop r issmax_age s =
     (case getline (CHR '','') s of
        None \<Rightarrow> r
      | Some (directive, rest) \<Rightarrow>
          (case process_directive r issmax_age directive of
             (r', b') \<Rightarrow> directives_loop r' b' rest))"
  by pat_completeness auto
termination
proof (relation "measure (\<lambda>(r, b, s). length s)")
  show "wf (measure (\<lambda>(r, b, s). length s))" by simp
next
  fix r :: Response and issmax_age :: bool and s x2 directive rest xa r' b'
  assume "getline (CHR '','') s = Some x2" and "(directive, rest) = x2"
  then have "s \<noteq> []" and "rest = drop 1 (dropWhile (\<lambda>c. c \<noteq> CHR '','') s)"
    by (auto simp: getline_def split: if_splits)
  moreover have "length (dropWhile (\<lambda>c. c \<noteq> CHR '','') s) \<le> length s"
    by (rule length_dropWhile_le)
  ultimately have "length rest < length s"
    by (cases s) (auto simp: le_Suc_eq)
  then show "((r', b', rest), r, issmax_age, s) \<in> measure (\<lambda>(r, b, s). length s)"
    by simp
qed

declare directives_loop.simps [simp del]

definition parseCacheControl :: "Response \<Rightarrow> Response" where
  "parseCacheControl r =
     (case map_of (header r) HEADER_CACHECTRL of
        None \<Rightarrow> r
      | Some v \<Rightarrow>
          let r1 = directives_loop r False v in
          if \<not> no_cache r1 \<and> \<not> no_cache r1 \<and> \<not> must_revalidate r1
          then r1\<lparr>cache_mode := CACHE_NORMAL\<rparr>
          else r1)"

text \<open>
  The body of the header loop of \<open>parseResponse\<close> for a line with a colon at position
  \<open>colomn\<close>, and the loop. The loop ends at the line \<open>"\r"\<close>, at an empty line and at the
  end of the text; it returns the response and the text not yet read. An exception of
  \<open>stoi\<close> leaves \<open>parseResponse\<close>.
\<close>

definition store_header :: "Response \<Rightarrow> string \<Rightarrow> nat \<Rightarrow> cpp_error + Response" where
  "store_header r line colomn =
     (let key = take colomn line;
          val = rtrim CR (ltrim SP (drop (colomn + 1) line));
          r1 = r\<lparr>header := map_assign key val (header r)\<rparr>
      in if key = HEADER_TRANSFER \<and> str_find val HEADER_CHUNCK \<noteq> None then
           Inr (r1\<lparr>is_chunked := True\<rparr>)
         else if key = HEADER_CONTENT_LEN then
           (case stoi val of
              Inl e \<Rightarrow> Inl e
            | Inr n \<Rightarrow> Inr (r1\<lparr>content_length := n\<rparr>))
         else Inr r1)"

function header_loop :: "Response \<Rightarrow> string \<Rightarrow> cpp_error + (Response \<times> string)" where
  "header_loop r s =
     (case getline LF s of
        None \<Rightarrow> Inr (r, [])
      | Some (line, rest) \<Rightarrow>
          if line = [CR] \<or> line = [] then Inr (r, rest)
          else
            (case find_char line (CHR '':'') of
               None \<Rightarrow> header_loop r rest
             | Some colomn \<Rightarrow>
                 (case store_header r line colomn of
                    Inl e \<Rightarrow> Inl e
                  | Inr r1 \<Rightarrow> header_loop r1 rest)))"
  by pat_completeness auto
termination
proof (relation "measure (\<lambda>(r, s). length s)")
  show "wf (measure (\<lambda>(r :: Response, s :: string). length s))" by simp
next
  fix r r1 :: Response and s x2 line rest
  assume "getline LF s = Some x2" and "(line, rest) = x2"
  then have "s \<noteq> []" and "rest = drop 1 (dropWhile (\<lambda>c. c \<noteq> LF) s)"
    by (auto simp: getline_def split: if_splits)
  moreover have "length (dropWhile (\<lambda>c. c \<noteq> LF) s) \<le> length s"
    by (rule length_dropWhile_le)
  ultimately have "length rest < length s"
    by (cases s) (auto simp: le_Suc_eq)
  then show "((r, rest), r, s) \<in> measure (\<lambda>(r, s). length s)"
    and "((r1, rest), r, s) \<in> measure (\<lambda>(r, s). length s)"
    by simp_all
qed

declare header_loop.simps [simp del]

text \<open>
  The loop that collects the body: every line that is left, each followed by a line
  feed.
\<close>

function body_loop :: "string \<Rightarrow> string \<Rightarrow> string" where
  "body_loop body_stream s =
     (case getline LF s of
        None \<Rightarrow> body_stream
      | Some (line, rest) \<Rightarrow> body_loop (body_stream @ line @ [LF]) rest)"
  by pat_completeness auto
termination
proof (relation "measure (\<lambda>(b, s). length s)")
  show "wf (measure (\<lambda>(b :: string, s :: string). length s))" by simp
next
  fix body_stream s :: string and x2 line rest
  assume "getline LF s = Some x2" and "(line, rest) = x2"
  then have "s \<noteq> []" and "rest = drop 1 (dropWhile (\<lambda>c. c \<noteq> LF) s)"
    by (auto simp: getline_def split: if_splits)
  moreover have "length (dropWhile (\<lambda>c. c \<noteq> LF) s) \<le> length s"
    by (rule length_dropWhile_le)
  ultimately have "length rest < length s"
    by (cases s) (auto simp: le_Suc_eq)
  then show "((body_stream @ line @ [LF], rest), body_stream, s) \<in> measure (\<lambda>(b, s). length s)"
    by simp
qed

declare body_loop.simps [simp del]

text \<open>
  \<open>setExpiredTime\<close>. \<open>parseHttpDate\<close> is \<open>from_time_t\<close> of \<open>mk_time\<close>, \<open>formatHTTPDate\<close> is
  \<open>fmt_time\<close> of \<open>to_time_t\<close>, and \<open>timeDifference\<close> casts the difference of two time points
  to seconds; the sums and the difference are taken on the clock's 64-bit count.
  \<open>time_diff / 10\<close> is the division of \<open>long long\<close>, which rounds towards zero.
\<close>

definition setExpiredTime :: "timelib \<Rightarrow> Response \<Rightarrow> Response" where
  "setExpiredTime L r =
     (let date_it = map_of (header r) HEADER_DATE in
      case (if max_age r > 0 then date_it else None) of
        Some d \<Rightarrow>
          let responseDate = from_time_t (mk_time L d);
              expiredTime = wrap64 (responseDate + ns_of_seconds (max_age r))
          in r\<lparr>expire_time := fmt_time L (to_time_t expiredTime)\<rparr>
      | None \<Rightarrow>
          (case map_of (header r) HEADER_EXPIRE of
             Some e \<Rightarrow> r\<lparr>expire_time := e\<rparr>
           | None \<Rightarrow>
               (case (if must_revalidate r then date_it else None) of
                  Some d \<Rightarrow> r\<lparr>expire_time := d\<rparr>
                | None \<Rightarrow>
                    (case (if cache_mode r \<noteq> CACHE_NO_STORE
                           then map_of (header r) HEADER_LAST_MODIFY else None, date_it) of
                       (Some lm, Some d) \<Rightarrow>
                         let time_diff =
                               to_time_t (wrap64 (from_time_t (mk_time L d)
                                                  - from_time_t (mk_time L lm)));
                             heuristic_expire = time_diff sdiv 10;
                             responseDate = from_time_t (mk_time L d);
                             expire_t = wrap64 (responseDate + ns_of_seconds heuristic_expire)
                         in r\<lparr>expire_time := fmt_time L (to_time_t expire_t)\<rparr>
                     | _ \<Rightarrow> r))))"

text \<open>
  \<open>parseResponse\<close>, called on the object \<open>r\<close>. The local \<open>Response* response\<close> of the
  source is allocated and never used, and is left out; on an empty buffer the source
  deletes it a second time in the handler before the exception leaves, of which the
  model keeps the exception.
\<close>

definition parseResponse :: "timelib \<Rightarrow> Response \<Rightarrow> string \<Rightarrow> cpp_error + Response" where
  "parseResponse L r httpResponse =
     (case getline LF httpResponse of
        None \<Rightarrow> Inl runtime_error
      | Some (status_line, rest) \<Rightarrow>
          (case header_loop (parse_status_line r status_line) rest of
             Inl e \<Rightarrow> Inl e
           | Inr (r2, rest2) \<Rightarrow>
               let r3 = (if \<not> is_chunked r2 then r2\<lparr>body := body_loop [] rest2\<rparr> else r2)
               in Inr (setExpiredTime L (parseCacheControl r3))))"

definition header_line :: "string \<times> string \<Rightarrow> string" where
  "header_line kv = fst kv @ '': '' @ snd kv @ [CR, LF]"

definition toString :: "Response \<Rightarrow> string" where
  "toString r =
     http_version r @ '' '' @ show_int (status_code r) @ '' '' @ status_message r @ [CR, LF]
     @ concat (map header_line (header r)) @ [CR, LF] @ body r"

text \<open>
  \<open>isCacheable(isPrivateCache)\<close>; the declaration gives the parameter the default
  \<open>false\<close>.
\<close>

definition isCacheable :: "Response \<Rightarrow> bool \<Rightarrow> bool" where
  "isCacheable r isPrivateCache =
     (if status_code r \<noteq> 200 \<or> cache_mode r = CACHE_NO_STORE then False
      else if cache_visibility r = CACHE_PRIVATE \<and> \<not> isPrivateCache then False
      else True)"

section \<open>The cache (cache.hpp, cache.cpp)\<close>

text \<open>
  \<open>cache_map\<close> is an \<open>unordered_map\<close>: a finite map. The stored \<open>Response*\<close> is never null
  (\<open>put\<close> refuses a null pointer), so an entry holds the response itself. Every operation
  runs at one instant \<open>now\<close>, the reading of \<open>system_clock::now()\<close>; the locks are not
  modelled, each operation is one atomic step, so the second look-up that \<open>get\<close> makes
  after it has changed locks finds what the first one found. The notes that \<open>put\<close> writes
  to the log file do not act on the cache and are not recorded.
\<close>

record CacheEntry =
  response :: Response
  url :: string
  last_checked :: int

record Cache =
  cache_map :: "(string, CacheEntry) fmap"
  lru_list :: "string list"
  max_entries :: nat
  cleanup_interval :: int
  last_cleanup :: int

text \<open>The constructor \<open>Cache(size, clean_sec)\<close>, run at the instant \<open>now\<close>.\<close>

definition Cache_init :: "nat \<Rightarrow> int \<Rightarrow> int \<Rightarrow> Cache" where
  "Cache_init sz clean_sec now =
     \<lparr>cache_map = fmempty, lru_list = [], max_entries = sz,
      cleanup_interval = clean_sec, last_cleanup = now\<rparr>"

definition updateLRU :: "Cache \<Rightarrow> string \<Rightarrow> Cache" where
  "updateLRU c u = c\<lparr>lru_list := u # removeAll u (lru_list c)\<rparr>"

definition isExpired :: "timelib \<Rightarrow> Response \<Rightarrow> int \<Rightarrow> bool" where
  "isExpired L r now =
     (if expire_time r = [] then True
      else now > from_time_t (mk_time L (expire_time r)))"

definition size_cache :: "Cache \<Rightarrow> nat" where
  "size_cache c = fcard (fmdom (cache_map c))"

text \<open>
  The eviction loop of \<open>cacheUpdate\<close>: each round looks at the tail of the list, erases
  it from the map when it is there, and pops the tail.
\<close>

function cacheUpdate :: "Cache \<Rightarrow> Cache" where
  "cacheUpdate c =
     (if size_cache c \<ge> max_entries c \<and> lru_list c \<noteq> [] then
        let urlRemove = last (lru_list c);
            c1 = (case fmlookup (cache_map c) urlRemove of
                    Some e \<Rightarrow> c\<lparr>cache_map := fmdrop urlRemove (cache_map c)\<rparr>
                  | None \<Rightarrow> c)
        in cacheUpdate (c1\<lparr>lru_list := butlast (lru_list c1)\<rparr>)
      else c)"
  by pat_completeness auto
termination
  by (relation "measure (\<lambda>c. length (lru_list c))") (auto split: option.splits)

declare cacheUpdate.simps [simp del]

definition touch :: "Cache \<Rightarrow> string \<Rightarrow> CacheEntry \<Rightarrow> int \<Rightarrow> Cache" where
  "touch c u e now =
     updateLRU (c\<lparr>cache_map := fmupd u (e\<lparr>last_checked := now\<rparr>) (cache_map c)\<rparr>) u"

definition get :: "timelib \<Rightarrow> Cache \<Rightarrow> string \<Rightarrow> int \<Rightarrow> Cache \<times> CacheStatus \<times> Response option" where
  "get L c u now =
     (case fmlookup (cache_map c) u of
        None \<Rightarrow> (c, NOT_IN_CACHE, None)
      | Some e \<Rightarrow>
          let cac_res = response e in
          if isExpired L cac_res now then
            (case fmlookup (cache_map c) u of
               None \<Rightarrow> (c, NOT_IN_CACHE, None)
             | Some e' \<Rightarrow> (c, EXPIRED, Some cac_res))
          else if cache_mode cac_res = CACHE_IMMUTABLE then
            (case fmlookup (cache_map c) u of
               None \<Rightarrow> (c, NOT_IN_CACHE, None)
             | Some e' \<Rightarrow> (touch c u e' now, VALID, Some (response e')))
          else if cache_mode cac_res = CACHE_MUST_REVALIDATE then
            (c, REQUIRES_VALIDATION, Some cac_res)
          else
            (case fmlookup (cache_map c) u of
               None \<Rightarrow> (c, NOT_IN_CACHE, None)
             | Some e' \<Rightarrow> (touch c u e' now, VALID, Some (response e'))))"

text \<open>
  The sweep visits every entry of the map and removes the expired ones from the map and
  from the list; the order of the visit (that of the hash table) does not show in the
  result, so the sweep is written as one filter of each.
\<close>

definition expired_key :: "timelib \<Rightarrow> Cache \<Rightarrow> int \<Rightarrow> string \<Rightarrow> bool" where
  "expired_key L c now u =
     (case fmlookup (cache_map c) u of
        Some e \<Rightarrow> isExpired L (response e) now
      | None \<Rightarrow> False)"

definition cleanExpiredResponse :: "timelib \<Rightarrow> Cache \<Rightarrow> int \<Rightarrow> Cache" where
  "cleanExpiredResponse L c now =
     c\<lparr>cache_map := fmfilter (\<lambda>u. \<not> expired_key L c now u) (cache_map c),
       lru_list := filter (\<lambda>u. \<not> expired_key L c now u) (lru_list c),
       last_cleanup := now\<rparr>"

text \<open>
  \<open>put\<close>; a null \<open>Response*\<close> is \<open>None\<close>. A new entry is built as \<open>CacheEntry{response, url}\<close>,
  which leaves \<open>last_checked\<close> at the epoch; replacing a response keeps the entry's
  \<open>last_checked\<close>. \<open>now - last_cleanup\<close> is a difference of clock readings, and the
  seconds of \<open>cleanup_interval\<close> are turned into nanoseconds for the comparison.
\<close>

definition put :: "timelib \<Rightarrow> Cache \<Rightarrow> string \<Rightarrow> Response option \<Rightarrow> int \<Rightarrow> Cache" where
  "put L c u resp now =
     (case resp of
        None \<Rightarrow> c
      | Some r \<Rightarrow>
          if cache_mode r = CACHE_NO_STORE then c
          else
            let c1 = (if wrap64 (now - last_cleanup c) > ns_of_seconds (cleanup_interval c)
                      then cleanExpiredResponse L c now else c)
            in (case fmlookup (cache_map c1) u of
                  Some e \<Rightarrow>
                    updateLRU (c1\<lparr>cache_map := fmupd u (e\<lparr>response := r\<rparr>) (cache_map c1)\<rparr>) u
                | None \<Rightarrow>
                    let c2 = cacheUpdate c1;
                        new_entry = \<lparr>response = r, url = u, last_checked = 0\<rparr>
                    in updateLRU (c2\<lparr>cache_map := fmupd u new_entry (cache_map c2)\<rparr>) u))"

text \<open>A client of the cache calls \<open>get\<close> and \<open>put\<close>, each at some instant.\<close>

datatype cache_op = Get string int | Put string "Response option" int

fun apply_op :: "timelib \<Rightarrow> Cache \<Rightarrow> cache_op \<Rightarrow> Cache" where
  "apply_op L c (Get u now) = fst (get L c u now)"
| "apply_op L c (Put u resp now) = put L c u resp now"

definition run_ops :: "timelib \<Rightarrow> Cache \<Rightarrow> cache_op list \<Rightarrow> Cache" where
  "run_ops L c ops = foldl (apply_op L) c ops"


section \<open>proxy.cpp: handleCaching\<close>

text \<open>
  \<open>handleCaching\<close> acts on the cache and on the log, and it may delete the response. It
  returns the cache, the calls of \<open>log_cache_response\<close> it made (request id, status,
  text) and whether it deleted the response.
\<close>

datatype log_event = log_cache_response int CacheStatus string

definition not_cacheable_reason :: "Response \<Rightarrow> string" where
  "not_cacheable_reason r =
     (if status_code r \<noteq> 200 then ''status code is not 200 OK''
      else if no_store r then ''no-store directive''
      else if cache_mode r = CACHE_NO_STORE then ''cache-control: no-store''
      else ''unknow'')"

definition handleCaching ::
  "timelib \<Rightarrow> Cache \<Rightarrow> Response \<Rightarrow> string \<Rightarrow> int \<Rightarrow> int \<Rightarrow> Cache \<times> log_event list \<times> bool" where
  "handleCaching L cache resp u request_id now =
     (if \<not> isCacheable resp False then
        (cache, [log_cache_response request_id NOT_CACHEABLE (not_cacheable_reason resp)], True)
      else
        let logged =
              (if expire_time resp \<noteq> [] then
                 [log_cache_response request_id WILL_EXPIRE (expire_time resp)]
               else if no_cache resp \<or> must_revalidate resp then
                 [log_cache_response request_id REVALIDATION []]
               else [])
        in (put L cache u (Some resp) now, logged, False))"

section \<open>Vocabulary of the properties\<close>

text \<open>
  \<open>cache_inv\<close> is the invariant of the cache: the keys of the map are the elements of
  the list, and the list has no duplicates. \<open>evict_tail\<close> is one round of \<open>cacheUpdate\<close>
  and \<open>sweep\<close> the conditional sweep at the head of \<open>put\<close>. \<open>put_all\<close> runs \<open>put\<close>s of
  (key, response, instant), \<open>gets\<close> runs \<open>get\<close>s of (key, instant) and lists what they
  return, and \<open>stored ps u\<close> is the response that \<open>ps\<close> puts under \<open>u\<close>. The constants from
  \<open>L0\<close> on are the concrete inputs of the examples; \<open>L0\<close> reads the text \<open>late\<close> as the
  second 100, the last second of the year 9999 as the second 253402300799 and any
  other text as 0, and writes a second as its decimal number.
\<close>

definition cache_inv :: "Cache \<Rightarrow> bool" where
  "cache_inv c \<longleftrightarrow> fmdom' (cache_map c) = set (lru_list c) \<and> distinct (lru_list c)"

definition evict_tail :: "Cache \<Rightarrow> Cache" where
  "evict_tail c = c\<lparr>cache_map := fmdrop (last (lru_list c)) (cache_map c), lru_list := butlast (lru_list c)\<rparr>"

definition sweep :: "timelib \<Rightarrow> Cache \<Rightarrow> int \<Rightarrow> Cache" where
  "sweep L c now = (if wrap64 (now - last_cleanup c) > ns_of_seconds (cleanup_interval c)
                      then cleanExpiredResponse L c now else c)"

definition put_all :: "timelib \<Rightarrow> Cache \<Rightarrow> (string \<times> Response \<times> int) list \<Rightarrow> Cache" where
  "put_all L c ps = foldl (\<lambda>c (u, r, t). put L c u (Some r) t) c ps"

fun gets :: "timelib \<Rightarrow> Cache \<Rightarrow> (string \<times> int) list \<Rightarrow> (CacheStatus \<times> Response option) list" where
  "gets L c [] = []"
| "gets L c ((u, t) # gs) = (case get L c u t of (c', st, ro) \<Rightarrow> (st, ro) # gets L c' gs)"

fun stored :: "(string \<times> Response \<times> int) list \<Rightarrow> string \<Rightarrow> Response option" where
  "stored [] v = None"
| "stored ((u, r, t) # ps) v = (if v = u then Some r else stored ps v)"

definition L0 :: timelib where
  "L0 = \<lparr>mk_time = (\<lambda>s. if s = ''late'' then 100
                        else if s = ''Fri, 31 Dec 9999 23:59:59 GMT'' then 253402300799
                        else 0),
          fmt_time = show_int\<rparr>"

definition resp_late :: Response where
  "resp_late = Response_init\<lparr>expire_time := ''late'', cache_mode := CACHE_NORMAL\<rparr>"

definition resp_9999 :: Response where
  "resp_9999 = Response_init\<lparr>expire_time := ''Fri, 31 Dec 9999 23:59:59 GMT'',
                             cache_mode := CACHE_NORMAL\<rparr>"


definition cache1 :: Cache where
  "cache1 = \<lparr>cache_map = fmupd ''a'' \<lparr>response = resp_late, url = ''a'', last_checked = 0\<rparr>
                (fmupd ''b'' \<lparr>response = resp_late, url = ''b'', last_checked = 0\<rparr> fmempty),
             lru_list = [''b'', ''a''], max_entries = 2, cleanup_interval = 300, last_cleanup = 0\<rparr>"

definition buf_no_store :: string where
  "buf_no_store = ''HTTP/1.1 200 OK'' @ [CR, LF] @ ''Cache-Control: no-store'' @ [CR, LF, CR, LF]"

definition buf_smaxage :: string where
  "buf_smaxage = ''HTTP/1.1 200 OK'' @ [CR, LF] @ ''Cache-Control: s-maxage=10, max-age=5''
     @ [CR, LF, CR, LF]"

definition buf_immutable :: string where
  "buf_immutable = ''HTTP/1.1 200 OK'' @ [CR, LF] @ ''Cache-Control: max-age=60, immutable''
     @ [CR, LF, CR, LF]"

definition buf_private :: string where
  "buf_private = ''HTTP/1.1 200 OK'' @ [CR, LF] @ ''Cache-Control: private, max-age=60''
     @ [CR, LF] @ ''Date: late'' @ [CR, LF, CR, LF] @ ''abc''"

definition resp_private :: Response where
  "resp_private =
     \<lparr>status_code = 200, status_message = '' OK'' @ [CR], http_version = ''HTTP/1.1'',
      header = [(''Cache-Control'', ''private, max-age=60''), (''Date'', ''late'')],
      body = ''abc'' @ [LF], expire_time = ''160'', is_chunked = False, content_length = - 1,
      no_store = False, no_cache = False, must_revalidate = False, max_age = 60,
      cache_mode = CACHE_NORMAL, cache_visibility = CACHE_PRIVATE\<rparr>"

text \<open>
  What holds of every response that \<open>parseResponse\<close> returns: \<open>status_inv\<close> for the
  three fields of the status line, \<open>hdr_inv\<close> for the header list and the two framing
  fields, with \<open>hdr_ok\<close> for one header. \<open>same_status\<close> relates two responses that differ
  in neither the status line nor the body, and \<open>core\<close> collects the fields that the
  cache directives and the expiry do not touch.
\<close>

definition status_inv :: "Response \<Rightarrow> bool" where
  "status_inv r \<longleftrightarrow>
     (\<forall>c \<in> set (http_version r). \<not> isspace c) \<and> LF \<notin> set (status_message r) \<and>
     INT_MIN \<le> status_code r \<and> status_code r \<le> INT_MAX \<and>
     (http_version r = [] \<longrightarrow> status_code r = 0 \<and> status_message r = [])"

definition hdr_ok :: "string \<times> string \<Rightarrow> bool" where
  "hdr_ok kv \<longleftrightarrow>
     CHR '':'' \<notin> set (fst kv) \<and> LF \<notin> set (fst kv) \<and> LF \<notin> set (snd kv) \<and>
     rtrim CR (ltrim SP (SP # snd kv @ [CR])) = snd kv"

definition hdr_inv :: "Response \<Rightarrow> bool" where
  "hdr_inv r \<longleftrightarrow>
     sorted_wrt (<) (map fst (header r)) \<and>
     (\<forall>kv \<in> set (header r). hdr_ok kv) \<and>
     (\<forall>v. (HEADER_CONTENT_LEN, v) \<in> set (header r) \<longrightarrow> stoi v = Inr (content_length r)) \<and>
     ((\<forall>v. (HEADER_CONTENT_LEN, v) \<notin> set (header r)) \<longrightarrow> content_length r = - 1) \<and>
     (\<not> is_chunked r \<longrightarrow>
        (\<forall>v. (HEADER_TRANSFER, v) \<in> set (header r) \<longrightarrow> str_find v HEADER_CHUNCK = None))"

definition same_status :: "Response \<Rightarrow> Response \<Rightarrow> bool" where
  "same_status r r' \<longleftrightarrow>
     status_code r' = status_code r \<and> http_version r' = http_version r \<and>
     status_message r' = status_message r \<and> body r' = body r"

definition core :: "Response \<Rightarrow> int \<times> (string \<times> string) list \<times> string \<times> bool \<times> int \<times> string \<times> string" where
  "core r = (status_code r, header r, body r, is_chunked r, content_length r,
             http_version r, status_message r)"

definition buf_te :: string where
  "buf_te = ''HTTP/1.1 200 OK'' @ [CR, LF] @ ''Transfer-Encoding: chunked'' @ [CR, LF]
     @ ''Transfer-Encoding: gzip'' @ [CR, LF, CR, LF]"

definition resp_te :: Response where
  "resp_te = Response_init
     \<lparr>status_code := 200, status_message := '' OK'' @ [CR], http_version := ''HTTP/1.1'',
      header := [(''Transfer-Encoding'', ''gzip'')], is_chunked := True\<rparr>"

definition resp_te2 :: Response where
  "resp_te2 = Response_init
     \<lparr>status_code := 200, status_message := ''  OK'' @ [CR, CR], http_version := ''HTTP/1.1'',
      header := [(''Transfer-Encoding'', ''gzip'')], is_chunked := False\<rparr>"

definition buf_ok :: string where
  "buf_ok = ''HTTP/1.1 200 OK'' @ [CR, LF] @ ''Date: late'' @ [CR, LF]
     @ ''Cache-Control: max-age=60'' @ [CR, LF] @ ''Content-Length: 3'' @ [CR, LF, CR, LF] @ ''abc''"

definition resp_ok :: Response where
  "resp_ok =
     \<lparr>status_code = 200, status_message = '' OK'' @ [CR], http_version = ''HTTP/1.1'',
      header = [(''Cache-Control'', ''max-age=60''), (''Content-Length'', ''3''), (''Date'', ''late'')],
      body = ''abc'' @ [LF], expire_time = ''160'', is_chunked = False, content_length = 3,
      no_store = False, no_cache = False, must_revalidate = False, max_age = 60,
      cache_mode = CACHE_NORMAL, cache_visibility = CACHE_PUBLIC\<rparr>"

definition resp_ok2 :: Response where
  "resp_ok2 = resp_ok\<lparr>status_message := ''  OK'' @ [CR, CR]\<rparr>"

section \<open>The cache: lemmas\<close>


lemma size_cache_inv: "cache_inv c \<Longrightarrow> size_cache c = length (lru_list c)"
  by (simp add: cache_inv_def size_cache_def fcard.rep_eq fmdom'_alt_def [symmetric] distinct_card)

lemma set_butlast_distinct:
  assumes "distinct xs" "xs \<noteq> []"
  shows "set (butlast xs) = set xs - {last xs}"
proof -
  obtain ys y where xs: "xs = ys @ [y]"
    using assms(2) by (metis append_butlast_last_id)
  with assms(1) show ?thesis by auto
qed

lemma cacheUpdate_step:
  assumes "cache_inv c" "size_cache c \<ge> max_entries c" "lru_list c \<noteq> []"
  shows "cacheUpdate c = cacheUpdate (evict_tail c)"
proof -
  have "last (lru_list c) \<in> fmdom' (cache_map c)"
    using assms by (simp add: cache_inv_def)
  then obtain e where "fmlookup (cache_map c) (last (lru_list c)) = Some e"
    by (auto simp: fmlookup_dom'_iff)
  then show ?thesis
    using assms by (subst cacheUpdate.simps) (simp add: evict_tail_def)
qed

lemma cacheUpdate_stop:
  "\<not> (size_cache c \<ge> max_entries c \<and> lru_list c \<noteq> []) \<Longrightarrow> cacheUpdate c = c"
  by (subst cacheUpdate.simps) auto

lemma evict_tail_inv: "cache_inv c \<Longrightarrow> lru_list c \<noteq> [] \<Longrightarrow> cache_inv (evict_tail c)"
  by (simp add: evict_tail_def cache_inv_def distinct_butlast set_butlast_distinct)

lemma evict_tail_fields [simp]:
  "max_entries (evict_tail c) = max_entries c"
  "cleanup_interval (evict_tail c) = cleanup_interval c"
  "last_cleanup (evict_tail c) = last_cleanup c"
  "lru_list (evict_tail c) = butlast (lru_list c)"
  by (simp_all add: evict_tail_def)

lemma cacheUpdate_inv: "cache_inv c \<Longrightarrow> cache_inv (cacheUpdate c)"
proof (induction "length (lru_list c)" arbitrary: c rule: less_induct)
  case less
  show ?case
  proof (cases "size_cache c \<ge> max_entries c \<and> lru_list c \<noteq> []")
    case True
    then have eq: "cacheUpdate c = cacheUpdate (evict_tail c)"
      using less.prems cacheUpdate_step by simp
    have "cache_inv (cacheUpdate (evict_tail c))"
      using True less.prems by (intro less.hyps) (simp_all add: evict_tail_inv)
    then show ?thesis by (simp add: eq)
  next
    case False
    then show ?thesis using less.prems by (simp add: cacheUpdate_stop)
  qed
qed

lemma cacheUpdate_lru:
  "cache_inv c \<Longrightarrow>
   lru_list (cacheUpdate c) = take (min (length (lru_list c)) (max_entries c - 1)) (lru_list c)"
proof (induction "length (lru_list c)" arbitrary: c rule: less_induct)
  case less
  show ?case
  proof (cases "size_cache c \<ge> max_entries c \<and> lru_list c \<noteq> []")
    case True
    then have eq: "cacheUpdate c = cacheUpdate (evict_tail c)"
      using less.prems cacheUpdate_step by simp
    have len: "max_entries c \<le> length (lru_list c)" "lru_list c \<noteq> []"
      using True less.prems by (simp_all add: size_cache_inv)
    have ih: "lru_list (cacheUpdate (evict_tail c)) =
        take (min (length (butlast (lru_list c))) (max_entries c - 1)) (butlast (lru_list c))"
      using less.hyps [of "evict_tail c"] True less.prems by (simp add: evict_tail_inv)
    have lt: "max_entries c - 1 < length (lru_list c)"
      using len by (cases "lru_list c") auto
    then have "take (max_entries c - 1) (butlast (lru_list c)) = take (max_entries c - 1) (lru_list c)"
      by (rule take_butlast)
    moreover have "min (length (butlast (lru_list c))) (max_entries c - 1) = max_entries c - 1"
      using lt by simp
    moreover have "min (length (lru_list c)) (max_entries c - 1) = max_entries c - 1"
      using lt by simp
    ultimately show ?thesis using ih eq by simp
  next
    case False
    then have "cacheUpdate c = c" by (simp add: cacheUpdate_stop)
    moreover have "length (lru_list c) \<le> max_entries c - 1"
      using False less.prems by (auto simp: size_cache_inv)
    ultimately show ?thesis by simp
  qed
qed

lemma cacheUpdate_lookup:
  "cache_inv c \<Longrightarrow>
   fmlookup (cache_map (cacheUpdate c)) u =
     (if u \<in> set (lru_list (cacheUpdate c)) then fmlookup (cache_map c) u else None)"
proof (induction "length (lru_list c)" arbitrary: c rule: less_induct)
  case less
  show ?case
  proof (cases "size_cache c \<ge> max_entries c \<and> lru_list c \<noteq> []")
    case True
    then have eq: "cacheUpdate c = cacheUpdate (evict_tail c)"
      using less.prems cacheUpdate_step by simp
    have inv': "cache_inv (evict_tail c)" using True less.prems by (simp add: evict_tail_inv)
    have ih: "fmlookup (cache_map (cacheUpdate (evict_tail c))) u =
       (if u \<in> set (lru_list (cacheUpdate (evict_tail c)))
        then fmlookup (cache_map (evict_tail c)) u else None)"
      using less.hyps [of "evict_tail c"] True inv' by simp
    have sub: "set (lru_list (cacheUpdate (evict_tail c))) \<subseteq> set (butlast (lru_list c))"
      using cacheUpdate_lru [OF inv'] by (simp) (metis set_take_subset)
    have "u \<in> set (butlast (lru_list c)) \<Longrightarrow> u \<noteq> last (lru_list c)"
      using True less.prems by (simp add: cache_inv_def set_butlast_distinct)
    then have "u \<in> set (lru_list (cacheUpdate (evict_tail c))) \<Longrightarrow>
       fmlookup (cache_map (evict_tail c)) u = fmlookup (cache_map c) u"
      using sub by (auto simp: evict_tail_def)
    then show ?thesis using ih eq by simp
  next
    case False
    then have "cacheUpdate c = c" by (simp add: cacheUpdate_stop)
    then show ?thesis using less.prems by (auto simp: cache_inv_def)
  qed
qed

lemma cacheUpdate_fields [simp]:
  "max_entries (cacheUpdate c) = max_entries c"
  "cleanup_interval (cacheUpdate c) = cleanup_interval c"
  "last_cleanup (cacheUpdate c) = last_cleanup c"
  by (induction c rule: cacheUpdate.induct; subst cacheUpdate.simps;
      simp add: Let_def split: option.splits)+

lemma updateLRU_inv:
  "cache_inv c \<Longrightarrow> u \<in> fmdom' (cache_map c) \<Longrightarrow> cache_inv (updateLRU c u)"
  by (auto simp: cache_inv_def updateLRU_def distinct_removeAll)

lemma touch_inv:
  "cache_inv c \<Longrightarrow> fmlookup (cache_map c) u = Some e' \<Longrightarrow> cache_inv (touch c u e now)"
  by (auto simp: cache_inv_def touch_def updateLRU_def distinct_removeAll dest: fmdom'I)

lemma cleanExpiredResponse_inv:
  "cache_inv c \<Longrightarrow> cache_inv (cleanExpiredResponse L c now)"
  by (auto simp: cache_inv_def cleanExpiredResponse_def)

lemma get_inv: "cache_inv c \<Longrightarrow> cache_inv (fst (get L c u now))"
  by (auto simp: get_def Let_def touch_inv split: option.splits)

lemma sweep_inv: "cache_inv c \<Longrightarrow> cache_inv (sweep L c now)"
  by (simp add: sweep_def cleanExpiredResponse_inv)

lemma sweep_fields [simp]:
  "max_entries (sweep L c now) = max_entries c"
  "cleanup_interval (sweep L c now) = cleanup_interval c"
  by (simp_all add: sweep_def cleanExpiredResponse_def)

lemma put_unfold:
  "put L c u (Some r) now =
     (if cache_mode r = CACHE_NO_STORE then c
      else case fmlookup (cache_map (sweep L c now)) u of
             Some e \<Rightarrow> updateLRU (sweep L c now\<lparr>cache_map := fmupd u (e\<lparr>response := r\<rparr>) (cache_map (sweep L c now))\<rparr>) u
           | None \<Rightarrow> updateLRU (cacheUpdate (sweep L c now)\<lparr>cache_map :=
                 fmupd u \<lparr>response = r, url = u, last_checked = 0\<rparr> (cache_map (cacheUpdate (sweep L c now)))\<rparr>) u)"
  by (simp add: put_def sweep_def Let_def split: option.splits)

lemma insert_new_inv:
  assumes "cache_inv c" 
  shows "cache_inv (updateLRU (c\<lparr>cache_map := fmupd u e (cache_map c)\<rparr>) u)"
  using assms by (auto simp: cache_inv_def updateLRU_def distinct_removeAll)

lemma put_inv: "cache_inv c \<Longrightarrow> cache_inv (put L c u resp now)"
proof (cases resp)
  case None
  assume "cache_inv c"
  then show ?thesis using None by (simp add: put_def)
next
  case (Some r)
  assume inv: "cache_inv c"
  have 1: "cache_inv (sweep L c now)" using inv by (rule sweep_inv)
  have 2: "cache_inv (cacheUpdate (sweep L c now))" using 1 by (rule cacheUpdate_inv)
  show ?thesis
    unfolding Some put_unfold using inv 1 2
    by (auto simp: insert_new_inv split: option.splits)
qed

lemma get_fields [simp]:
  "max_entries (fst (get L c u now)) = max_entries c"
  by (simp add: get_def Let_def touch_def updateLRU_def split: option.splits)

lemma put_fields [simp]:
  "max_entries (put L c u resp now) = max_entries c"
proof (cases resp)
  case None
  then show ?thesis by (simp add: put_def)
next
  case (Some r)
  show ?thesis unfolding Some put_unfold
    by (simp add: updateLRU_def split: option.splits)
qed

lemma fmdom_upd_present: "fmlookup m u = Some e \<Longrightarrow> finsert u (fmdom m) = fmdom m"
  by (auto simp: fmlookup_dom_iff)

lemma get_fmdom: "fmdom (cache_map (fst (get L c u now))) = fmdom (cache_map c)"
  by (simp add: get_def Let_def touch_def updateLRU_def fmdom_upd_present split: option.splits)

lemma get_size: "size_cache (fst (get L c u now)) = size_cache c"
  by (simp add: size_cache_def get_fmdom)

lemma sweep_size: "cache_inv c \<Longrightarrow> size_cache (sweep L c now) \<le> size_cache c"
  using size_cache_inv [OF sweep_inv, of c L now] size_cache_inv [of c]
  by (simp add: sweep_def cleanExpiredResponse_def)

lemma put_size:
  assumes inv: "cache_inv c" and le: "size_cache c \<le> max_entries c" and pos: "1 \<le> max_entries c"
  shows "size_cache (put L c u resp now) \<le> max_entries c"
proof (cases resp)
  case None
  then show ?thesis using le by (simp add: put_def)
next
  case (Some r)
  let ?s = "sweep L c now"
  have 1: "cache_inv ?s" using inv by (rule sweep_inv)
  have 2: "cache_inv (cacheUpdate ?s)" using 1 by (rule cacheUpdate_inv)
  have s_le: "size_cache ?s \<le> max_entries c" using sweep_size [OF inv] le by (rule order_trans)
  have repl: "size_cache (updateLRU (?s\<lparr>cache_map := fmupd u e' (cache_map ?s)\<rparr>) u) = size_cache ?s"
    if "fmlookup (cache_map ?s) u = Some e" for e e'
    using that by (simp add: size_cache_def updateLRU_def fmdom_upd_present)
  have "length (lru_list (cacheUpdate ?s)) \<le> max_entries c - 1"
    using cacheUpdate_lru [OF 1] by simp
  then have "size_cache (cacheUpdate ?s) < max_entries c"
    using pos size_cache_inv [OF 2] by simp
  moreover have "size_cache (updateLRU (cacheUpdate ?s\<lparr>cache_map := fmupd u e' (cache_map (cacheUpdate ?s))\<rparr>) u)
      \<le> Suc (size_cache (cacheUpdate ?s))" for e'
    by (simp add: size_cache_def updateLRU_def fcard_finsert_if)
  ultimately have ins: "size_cache (updateLRU (cacheUpdate ?s\<lparr>cache_map := fmupd u e' (cache_map (cacheUpdate ?s))\<rparr>) u)
      \<le> max_entries c" for e'
    by (meson Suc_leI order_trans)
  show ?thesis unfolding Some put_unfold
    using le s_le repl ins by (simp split: option.splits)
qed

lemma Cache_init_inv: "cache_inv (Cache_init n cs t0)"
  by (simp add: cache_inv_def Cache_init_def)

lemma apply_op_inv: "cache_inv c \<Longrightarrow> cache_inv (apply_op L c x)"
  by (cases x) (simp_all add: get_inv put_inv)

lemma run_ops_inv: "cache_inv c \<Longrightarrow> cache_inv (run_ops L c ops)"
  unfolding run_ops_def by (induction ops arbitrary: c) (simp_all add: apply_op_inv)

lemma apply_op_max [simp]: "max_entries (apply_op L c x) = max_entries c"
  by (cases x) simp_all

lemma apply_op_size:
  "cache_inv c \<Longrightarrow> size_cache c \<le> max_entries c \<Longrightarrow> 1 \<le> max_entries c \<Longrightarrow>
   size_cache (apply_op L c x) \<le> max_entries c"
  by (cases x) (simp_all add: get_size put_size)

lemma run_ops_size:
  "cache_inv c \<Longrightarrow> size_cache c \<le> max_entries c \<Longrightarrow> 1 \<le> max_entries c \<Longrightarrow>
   size_cache (run_ops L c ops) \<le> max_entries c"
  unfolding run_ops_def
proof (induction ops arbitrary: c)
  case Nil
  then show ?case by simp
next
  case (Cons x ops)
  have "size_cache (foldl (apply_op L) (apply_op L c x) ops) \<le> max_entries (apply_op L c x)"
    using Cons.prems by (intro Cons.IH) (simp_all add: apply_op_inv apply_op_size)
  then show ?case by simp
qed

lemma cache1_inv: "cache_inv cache1"
  by (auto simp: cache_inv_def cache1_def)

lemma sweep_noop:
  assumes "\<And>v e. fmlookup (cache_map c) v = Some e \<Longrightarrow> \<not> isExpired L (response e) now"
  shows "cache_map (sweep L c now) = cache_map c" "lru_list (sweep L c now) = lru_list c"
proof -
  have "\<not> expired_key L c now v" for v
    using assms by (auto simp: expired_key_def split: option.splits)
  then show "cache_map (sweep L c now) = cache_map c" "lru_list (sweep L c now) = lru_list c"
    by (simp_all add: sweep_def cleanExpiredResponse_def)
qed

lemma stored_None: "stored ps v = None \<longleftrightarrow> v \<notin> fst ` set ps"
  by (induction ps v rule: stored.induct) auto

lemma stored_snoc:
  "stored (ps @ [(u, r, t)]) v =
     (if v \<in> fst ` set ps then stored ps v else if v = u then Some r else None)"
  by (induction ps v rule: stored.induct) auto

lemma take_min_length: "take (min (length ys) k) ys = take k ys"
  by (simp add: min_def)

lemma put_all_snoc: "put_all L c (ps @ [(u, r, t)]) = put L (put_all L c ps) u (Some r) t"
  by (simp add: put_all_def)

lemma puts_state:
  assumes "1 \<le> n" "distinct (map fst ps)"
    and "\<forall>p \<in> set ps. cache_mode (fst (snd p)) \<noteq> CACHE_NO_STORE"
    and "\<forall>p \<in> set ps. \<forall>q \<in> set ps. \<not> isExpired L (fst (snd p)) (snd (snd q))"
  shows "cache_inv (put_all L (Cache_init n cs t0) ps) \<and>
         max_entries (put_all L (Cache_init n cs t0) ps) = n \<and>
         lru_list (put_all L (Cache_init n cs t0) ps) = take n (rev (map fst ps)) \<and>
         (\<forall>v \<in> set (take n (rev (map fst ps))).
            map_option response (fmlookup (cache_map (put_all L (Cache_init n cs t0) ps)) v) = stored ps v)"
  using assms(2-4)
proof (induction ps rule: rev_induct)
  case Nil
  show ?case by (simp add: put_all_def Cache_init_inv) (simp add: Cache_init_def)
next
  case (snoc x ps)
  obtain u r t where x: "x = (u, r, t)" by (cases x)
  let ?c = "put_all L (Cache_init n cs t0) ps"
  have ih: "cache_inv ?c" "max_entries ?c = n" "lru_list ?c = take n (rev (map fst ps))"
    "\<And>v. v \<in> set (take n (rev (map fst ps))) \<Longrightarrow>
       map_option response (fmlookup (cache_map ?c) v) = stored ps v"
    using snoc.IH snoc.prems by simp_all
  have new: "u \<notin> fst ` set ps" using snoc.prems(1) x by auto
  have mode: "cache_mode r \<noteq> CACHE_NO_STORE" using snoc.prems(2) x by auto
  have keys: "fmdom' (cache_map ?c) \<subseteq> fst ` set ps"
    using ih(1,3) by (auto simp: cache_inv_def dest!: in_set_takeD)
  have fresh: "\<not> isExpired L (response e) t" if "fmlookup (cache_map ?c) v = Some e" for v e
  proof -
    have v: "v \<in> set (take n (rev (map fst ps)))"
      using that ih(1,3) by (auto simp: cache_inv_def dest: fmdom'I)
    then have "stored ps v = Some (response e)" using ih(4) [OF v] that by simp
    then have "\<exists>t'. (v, response e, t') \<in> set ps"
      by (induction ps v rule: stored.induct) (auto split: if_splits)
    then obtain t' where "(v, response e, t') \<in> set (ps @ [x])" by auto
    moreover have "x \<in> set (ps @ [x])" by simp
    ultimately have "\<not> isExpired L (fst (snd (v, response e, t'))) (snd (snd x))"
      using snoc.prems(3) by blast
    then show ?thesis using x by simp
  qed
  let ?s = "sweep L ?c t"
  have s_map: "cache_map ?s = cache_map ?c" and s_lru: "lru_list ?s = lru_list ?c"
    using sweep_noop [of ?c L t] fresh by blast+
  have s_inv: "cache_inv ?s" using ih(1) by (rule sweep_inv)
  have absent: "fmlookup (cache_map ?s) u = None"
    using keys new s_map by (metis fmdom'_notD subsetD)
  let ?d = "cacheUpdate ?s"
  have d_inv: "cache_inv ?d" using s_inv by (rule cacheUpdate_inv)
  have d_lru: "lru_list ?d = take (n - 1) (rev (map fst ps))"
  proof -
    have "lru_list ?d = take (n - 1) (take n (rev (map fst ps)))"
      using cacheUpdate_lru [OF s_inv] ih(2,3) s_lru by (simp only: take_min_length sweep_fields)
    then show ?thesis by (simp add: min_def)
  qed
  have d_look: "fmlookup (cache_map ?d) v = (if v \<in> set (lru_list ?d) then fmlookup (cache_map ?c) v else None)" for v
    using cacheUpdate_lookup [OF s_inv, of v] s_map by simp
  have u_notin: "u \<notin> set (lru_list ?d)"
    using new d_lru by (auto dest!: in_set_takeD)
  have put_eq: "put_all L (Cache_init n cs t0) (ps @ [x]) =
      updateLRU (?d\<lparr>cache_map := fmupd u \<lparr>response = r, url = u, last_checked = 0\<rparr> (cache_map ?d)\<rparr>) u"
    unfolding x put_all_snoc put_unfold using mode absent by simp
  have lru': "take n (rev (map fst (ps @ [x]))) = u # take (n - 1) (rev (map fst ps))"
    using assms(1) x by (cases n) simp_all
  have 1: "cache_inv (put_all L (Cache_init n cs t0) (ps @ [x]))"
    unfolding put_eq using d_inv by (rule insert_new_inv)
  have 2: "max_entries (put_all L (Cache_init n cs t0) (ps @ [x])) = n"
    unfolding put_eq using ih(2) by (simp add: updateLRU_def)
  have 3: "lru_list (put_all L (Cache_init n cs t0) (ps @ [x])) = take n (rev (map fst (ps @ [x])))"
    unfolding put_eq lru' using u_notin d_lru by (simp add: updateLRU_def)
  have st: "stored (ps @ [x]) v =
     (if v \<in> fst ` set ps then stored ps v else if v = u then Some r else None)" for v
    unfolding x by (rule stored_snoc)
  have 4: "map_option response (fmlookup (cache_map (put_all L (Cache_init n cs t0) (ps @ [x]))) v)
       = stored (ps @ [x]) v" if "v \<in> set (take n (rev (map fst (ps @ [x]))))" for v
  proof (cases "v = u")
    case True
    then show ?thesis unfolding put_eq st using new by (simp add: updateLRU_def)
  next
    case False
    then have v: "v \<in> set (take (n - 1) (rev (map fst ps)))" using that lru' by simp
    then have v': "v \<in> set (take n (rev (map fst ps)))"
      by (metis diff_le_self set_take_subset_set_take subsetD)
    have "v \<in> fst ` set ps" using v by (auto dest!: in_set_takeD)
    then show ?thesis 
      unfolding put_eq st using False v d_lru d_look [of v] ih(4) [OF v']
      by (simp add: updateLRU_def)
  qed
  show ?case using 1 2 3 4 by blast
qed

lemma get_response_preserved:
  "map_option response (fmlookup (cache_map (fst (get L c u now))) v) =
   map_option response (fmlookup (cache_map c) v)"
  by (simp add: get_def Let_def touch_def updateLRU_def split: option.splits)

lemma get_absent: "fmlookup (cache_map c) u = None \<Longrightarrow> snd (get L c u now) = (NOT_IN_CACHE, None)"
  by (simp add: get_def)

lemma get_present:
  "fmlookup (cache_map c) u = Some e \<Longrightarrow>
   fst (snd (get L c u now)) \<noteq> NOT_IN_CACHE \<and> snd (snd (get L c u now)) = Some (response e)"
  by (simp add: get_def Let_def)

lemma gets_result:
  assumes "\<And>v. map_option response (fmlookup (cache_map c) v) = f v"
  shows "list_all2 (\<lambda>(u, t) (st, ro).
            if f u = None then st = NOT_IN_CACHE \<and> ro = None
            else st \<noteq> NOT_IN_CACHE \<and> ro = f u) gs (gets L c gs)"
  using assms
proof (induction gs arbitrary: c)
  case Nil
  show ?case by simp
next
  case (Cons g gs)
  obtain u t where g: "g = (u, t)" by (cases g)
  obtain c' st ro where res: "get L c u t = (c', st, ro)" by (cases "get L c u t")
  have c': "c' = fst (get L c u t)" and sr: "(st, ro) = snd (get L c u t)" using res by simp_all
  have "map_option response (fmlookup (cache_map c') v) = f v" for v
    unfolding c' get_response_preserved by (rule Cons.prems)
  then have tl: "list_all2 (\<lambda>(u, t) (st, ro).
            if f u = None then st = NOT_IN_CACHE \<and> ro = None
            else st \<noteq> NOT_IN_CACHE \<and> ro = f u) gs (gets L c' gs)"
    by (rule Cons.IH)
  have hd: "if f u = None then st = NOT_IN_CACHE \<and> ro = None else st \<noteq> NOT_IN_CACHE \<and> ro = f u"
  proof (cases "fmlookup (cache_map c) u")
    case None
    then have "f u = None" using Cons.prems [of u] by simp
    then show ?thesis using get_absent [OF None, of L t] sr by simp
  next
    case (Some e)
    then have "f u = Some (response e)" using Cons.prems [of u] by simp
    then show ?thesis using get_present [OF Some, of L t] sr by (metis fst_conv option.distinct(1) snd_conv)
  qed
  show ?case using hd tl by (simp add: g res)
qed

lemma put_all_single: "put_all L c [(u, r, t)] = put L c u (Some r) t"
  by (simp add: put_all_def)

section \<open>The claims about the cache\<close>



text \<open>
  Claim C4. From the empty cache with \<open>max_entries \<ge> 1\<close>, whatever \<open>get\<close>s and \<open>put\<close>s
  are run, the map never holds more than \<open>max_entries\<close> entries.
\<close>

theorem size_never_exceeds_max_entries:
  "1 \<le> n \<Longrightarrow> size_cache (run_ops L (Cache_init n cs t0) ops) \<le> n"
proof -
  assume "1 \<le> n"
  moreover have "size_cache (Cache_init n cs t0) = 0" "max_entries (Cache_init n cs t0) = n"
    by (simp_all add: Cache_init_def size_cache_def fcard_fempty)
  ultimately show ?thesis
    using run_ops_size [of "Cache_init n cs t0" L ops] by (simp add: Cache_init_inv)
qed

theorem size_never_exceeds_max_entries_witness:
  "(1::nat) \<le> 1 \<and> size_cache (run_ops L0 (Cache_init 1 300 0)
     [Put ''a'' (Some (Response_init\<lparr>expire_time := ''x''\<rparr>)) 0, Get ''a'' 0,
      Put ''b'' (Some (Response_init\<lparr>expire_time := ''x''\<rparr>)) 0]) \<le> 1"
  using size_never_exceeds_max_entries [of 1 L0 300 0
     "[Put ''a'' (Some (Response_init\<lparr>expire_time := ''x''\<rparr>)) 0, Get ''a'' 0,
      Put ''b'' (Some (Response_init\<lparr>expire_time := ''x''\<rparr>)) 0]"]
  by simp

text \<open>
  Claim C5. In every state reached from the empty cache the keys of the map are the
  elements of the list, and the list has no duplicates; \<open>get\<close> and \<open>put\<close> keep this
  true from any state in which it holds.
\<close>

theorem keys_equal_lru_elements:
  "cache_inv (run_ops L (Cache_init n cs t0) ops) \<and>
   (cache_inv c \<longrightarrow> cache_inv (fst (get L c u now)) \<and> cache_inv (put L c u resp now))"
  by (simp add: run_ops_inv Cache_init_inv get_inv put_inv)

theorem keys_equal_lru_elements_witness:
  "cache_inv cache1 \<and> cache_inv (fst (get L0 cache1 ''a'' 5)) \<and>
   cache_inv (put L0 cache1 ''a'' (Some resp_late) 5)"
  using keys_equal_lru_elements [where L = L0 and ops = "[]" and c = cache1 and u = "''a''"
      and now = 5 and resp = "Some resp_late"]
  by (simp add: cache1_inv)

text \<open>
  Claim C6, amended with \<open>max_entries \<ge> 1\<close>. After \<open>put\<close>s of pairwise distinct keys,
  none \<open>CACHE_NO_STORE\<close> and none expired, as \<open>isExpired\<close> tests it on the clock's 64-bit
  count, at any instant of a \<open>put\<close>, any run of \<open>get\<close>s
  finds the \<open>max_entries\<close> keys put last, each with the response put under it and a
  status other than \<open>NOT_IN_CACHE\<close>, and answers \<open>NOT_IN_CACHE\<close> for every other key.
  The keys that survive number \<open>max_entries\<close> when more than \<open>max_entries\<close> were put.
\<close>

theorem lru_survivors:
  assumes "1 \<le> n" "distinct (map fst ps)"
    and "\<forall>p \<in> set ps. cache_mode (fst (snd p)) \<noteq> CACHE_NO_STORE"
    and "\<forall>p \<in> set ps. \<forall>q \<in> set ps. \<not> isExpired L (fst (snd p)) (snd (snd q))"
  shows "list_all2 (\<lambda>(u, t) (st, ro).
            if u \<in> set (take n (rev (map fst ps)))
            then st \<noteq> NOT_IN_CACHE \<and> ro = stored ps u \<and> ro \<noteq> None
            else st = NOT_IN_CACHE \<and> ro = None)
          gs (gets L (put_all L (Cache_init n cs t0) ps) gs) \<and>
         card (set (take n (rev (map fst ps)))) = min n (length ps)"
proof -
  let ?c = "put_all L (Cache_init n cs t0) ps"
  let ?S = "set (take n (rev (map fst ps)))"
  let ?f = "\<lambda>v. if v \<in> ?S then stored ps v else None"
  have st: "cache_inv ?c" "lru_list ?c = take n (rev (map fst ps))"
    "\<And>v. v \<in> ?S \<Longrightarrow> map_option response (fmlookup (cache_map ?c) v) = stored ps v"
    using puts_state [OF assms, of cs t0] by simp_all
  have f: "map_option response (fmlookup (cache_map ?c) v) = ?f v" for v
  proof (cases "v \<in> ?S")
    case True
    then show ?thesis using st(3) by simp
  next
    case False
    then have "v \<notin> fmdom' (cache_map ?c)" using st(1,2) by (simp add: cache_inv_def)
    then show ?thesis using False by (simp add: fmdom'_notD)
  qed
  have some: "v \<in> ?S \<Longrightarrow> stored ps v \<noteq> None" for v
    by (auto simp: stored_None dest!: in_set_takeD)
  have "list_all2 (\<lambda>(u, t) (st, ro).
            if ?f u = None then st = NOT_IN_CACHE \<and> ro = None
            else st \<noteq> NOT_IN_CACHE \<and> ro = ?f u) gs (gets L ?c gs)"
    using f by (rule gets_result)
  then have 1: "list_all2 (\<lambda>(u, t) (st, ro).
            if u \<in> ?S then st \<noteq> NOT_IN_CACHE \<and> ro = stored ps u \<and> ro \<noteq> None
            else st = NOT_IN_CACHE \<and> ro = None) gs (gets L ?c gs)"
    by (rule list_all2_mono) (use some in \<open>fastforce split: if_splits\<close>)
  have "distinct (take n (rev (map fst ps)))" using assms(2) by simp
  then have 2: "card ?S = min n (length ps)" by (simp add: distinct_card min.commute)
  show ?thesis using 1 2 by simp
qed

theorem lru_survivors_witness:
  "(1::nat) \<le> 1 \<and> distinct (map fst [(''a'', resp_late, 0::int), (''b'', resp_late, 1)]) \<and>
   cache_mode resp_late \<noteq> CACHE_NO_STORE \<and>
   \<not> isExpired L0 resp_late 0 \<and> \<not> isExpired L0 resp_late 1 \<and>
   gets L0 (put_all L0 (Cache_init 1 300 0) [(''a'', resp_late, 0), (''b'', resp_late, 1)])
      [(''a'', 2), (''b'', 3)]
     = [(NOT_IN_CACHE, None), (VALID, Some resp_late)]"
proof -
  have ev: "gets L0 (put_all L0 (Cache_init 1 300 0) [(''a'', resp_late, 0), (''b'', resp_late, 1)])
      [(''a'', 2), (''b'', 3)] = [(NOT_IN_CACHE, None), (VALID, Some resp_late)]"
    by code_simp
  have hyps: "cache_mode resp_late \<noteq> CACHE_NO_STORE"
    "\<not> isExpired L0 resp_late 0" "\<not> isExpired L0 resp_late 1"
    by (simp_all add: isExpired_def resp_late_def L0_def Response_init_def from_time_t_def
        ns_of_seconds_def wrap64_def
        CACHE_NO_STORE_def CACHE_NORMAL_def)
  show ?thesis
    using lru_survivors [of 1 "[(''a'', resp_late, 0), (''b'', resp_late, 1)]" L0
        "[(''a'', 2), (''b'', 3)]" 300 0] ev hyps
    by simp
qed

text \<open>
  For \<open>max_entries = 0\<close> claim C6 fails as it is worded: the eviction loop empties
  the cache before the insertion, not after it, so one \<open>put\<close> into a cache of capacity
  0 leaves its entry stored, and the \<open>get\<close> that follows finds it.
\<close>

theorem lru_survivors_counterexample:
  "distinct (map fst [(''a'', resp_late, 0::int)]) \<and>
   cache_mode resp_late \<noteq> CACHE_NO_STORE \<and> \<not> isExpired L0 resp_late 0 \<and>
   length [(''a'', resp_late, 0::int)] > 0 \<and>
   gets L0 (put_all L0 (Cache_init 0 300 0) [(''a'', resp_late, 0)]) [(''a'', 0)]
     = [(VALID, Some resp_late)]"
  by (simp add: put_all_single put_unfold sweep_def from_time_t_def ns_of_seconds_def
        wrap64_def Cache_init_def
        cacheUpdate_stop get_def isExpired_def resp_late_def L0_def Response_init_def
        CACHE_NO_STORE_def CACHE_NORMAL_def CACHE_IMMUTABLE_def CACHE_MUST_REVALIDATE_def
        Let_def updateLRU_def touch_def)

text \<open>
  Responses that expire after 11 April 2262 are expired by that test and so lie outside
  the theorem: with capacity 2 and a sweep interval of 300 seconds, three of them put
  at the seconds 1, 2 and 302 leave only the third, because the sweep that the third
  \<open>put\<close> runs removes the first two.
\<close>

lemma sweep_removes_wrapped_dates:
  "gets L0 (put_all L0 (Cache_init 2 300 0)
       [(''a'', resp_9999, 1000000000), (''b'', resp_9999, 2000000000),
        (''c'', resp_9999, 302000000000)])
     [(''a'', 303000000000), (''b'', 303000000000), (''c'', 303000000000)]
   = [(NOT_IN_CACHE, None), (NOT_IN_CACHE, None), (EXPIRED, Some resp_9999)]"
  by code_simp

text \<open>
  Claim C7. \<open>put\<close> of a null response, or of one whose mode is \<open>CACHE_NO_STORE\<close>,
  returns the cache as it was: map, list and \<open>last_cleanup\<close>.
\<close>

theorem put_null_or_no_store_is_noop:
  "resp = None \<or> (\<exists>r. resp = Some r \<and> cache_mode r = CACHE_NO_STORE) \<Longrightarrow>
   put L c u resp now = c"
  by (auto simp: put_def)

theorem put_null_or_no_store_is_noop_witness:
  "cache_mode (Response_init\<lparr>cache_mode := CACHE_NO_STORE\<rparr>) = CACHE_NO_STORE \<and>
   put L0 cache1 ''c'' (Some (Response_init\<lparr>cache_mode := CACHE_NO_STORE\<rparr>)) 7 = cache1 \<and>
   put L0 cache1 ''c'' None 7 = cache1"
  using put_null_or_no_store_is_noop [of "Some (Response_init\<lparr>cache_mode := CACHE_NO_STORE\<rparr>)" L0 cache1 "''c''" 7]
    put_null_or_no_store_is_noop [of None L0 cache1 "''c''" 7]
  by simp

text \<open>
  Claim C9. \<open>get\<close> removes nothing. In a state where the keys of the map are the
  elements of the list (every reachable state, by C5), the keys, the elements of the
  list, the response and the url stored under each key, the entries of the other keys
  and the three scalar fields are the same after \<open>get\<close> as before; only the order of the
  list and the \<open>last_checked\<close> of the key looked up can differ. An expired entry is
  reported \<open>EXPIRED\<close> and the cache is left as it was.
\<close>

theorem get_removes_nothing:
  assumes "cache_inv c"
  shows "fmdom' (cache_map (fst (get L c u now))) = fmdom' (cache_map c) \<and>
         set (lru_list (fst (get L c u now))) = set (lru_list c) \<and>
         (\<forall>v. map_option response (fmlookup (cache_map (fst (get L c u now))) v) =
              map_option response (fmlookup (cache_map c) v)) \<and>
         (\<forall>v. map_option url (fmlookup (cache_map (fst (get L c u now))) v) =
              map_option url (fmlookup (cache_map c) v)) \<and>
         (\<forall>v. v \<noteq> u \<longrightarrow>
              fmlookup (cache_map (fst (get L c u now))) v = fmlookup (cache_map c) v) \<and>
         max_entries (fst (get L c u now)) = max_entries c \<and>
         cleanup_interval (fst (get L c u now)) = cleanup_interval c \<and>
         last_cleanup (fst (get L c u now)) = last_cleanup c \<and>
         (\<forall>e. fmlookup (cache_map c) u = Some e \<and> isExpired L (response e) now \<longrightarrow>
              get L c u now = (c, EXPIRED, Some (response e)))"
  using assms
  by (auto simp: get_def Let_def touch_def updateLRU_def cache_inv_def
      split: option.splits dest: fmdom'I)

theorem get_removes_nothing_witness:
  "cache_inv cache1 \<and> isExpired L0 resp_late 100000000001 \<and>
   get L0 cache1 ''a'' 100000000001 = (cache1, EXPIRED, Some resp_late) \<and>
   set (lru_list (fst (get L0 cache1 ''a'' 5))) = {''a'', ''b''}"
  using get_removes_nothing [OF cache1_inv, of L0 "''a''" 100000000001]
    get_removes_nothing [OF cache1_inv, of L0 "''a''" 5]
  by (simp add: cache1_inv)
     (simp add: cache1_def isExpired_def resp_late_def L0_def from_time_t_def ns_of_seconds_def
        wrap64_def insert_commute)

section \<open>The response parser: lemmas\<close>


lemma getline_append:
  assumes "d \<notin> set l"
  shows "getline d (l @ d # rest) = Some (l, rest)"
proof -
  have all: "\<And>x. x \<in> set l \<Longrightarrow> x \<noteq> d" using assms by auto
  have "takeWhile (\<lambda>c. c \<noteq> d) (l @ d # rest) = l"
    using all by (simp add: takeWhile_tail)
  moreover have "dropWhile (\<lambda>c. c \<noteq> d) (l @ d # rest) = d # rest"
    using all by (simp add: dropWhile_append2)
  ultimately show ?thesis by (simp add: getline_def)
qed

lemma getline_Nil [simp]: "getline d [] = None"
  by (simp add: getline_def)

lemma getline_line: "getline d s = Some (l, rest) \<Longrightarrow> d \<notin> set l"
  by (auto simp: getline_def split: if_splits dest: set_takeWhileD)

lemma isdigit_digit_char: "n < 10 \<Longrightarrow> isdigit (digit_char n)"
  by (simp add: isdigit_def digit_char_def less_eq_char_def)

lemma digit_val_digit_char: "n < 10 \<Longrightarrow> digit_val (digit_char n) = int n"
  by (simp add: digit_val_def digit_char_def)

lemma show_nat_digits: "\<forall>c \<in> set (show_nat n). isdigit c"
proof (induction n rule: show_nat.induct)
  case (1 n)
  show ?case
    by (subst show_nat.simps) (use 1 in \<open>auto simp: isdigit_digit_char\<close>)
qed

lemma show_nat_nonempty: "show_nat n \<noteq> []"
  by (subst show_nat.simps) simp

lemma digits_val_snoc: "digits_val (ds @ [c]) = 10 * digits_val ds + digit_val c"
  by (simp add: digits_val_def)

lemma digits_val_show_nat: "digits_val (show_nat n) = int n"
proof (induction n rule: show_nat.induct)
  case (1 n)
  show ?case
  proof (cases "n < 10")
    case True
    then show ?thesis
      by (subst show_nat.simps) (simp add: digits_val_def digit_val_digit_char)
  next
    case False
    then have "digits_val (show_nat n) = 10 * int (n div 10) + int (n mod 10)"
      using 1 by (subst show_nat.simps) (simp add: digits_val_snoc digit_val_digit_char)
    then show ?thesis by (simp add: zdiv_int zmod_int)
  qed
qed

lemma isdigit_not_sign: "isdigit c \<Longrightarrow> c \<noteq> CHR ''-'' \<and> c \<noteq> CHR ''+''"
  by (auto simp: isdigit_def less_eq_char_def)

lemma isdigit_not_space: "isdigit c \<Longrightarrow> \<not> isspace c"
  by (auto simp: isdigit_def isspace_def less_eq_char_def SP_def LF_def CR_def)

lemma read_sign_show_int:
  "read_sign (show_int i @ rest) = (i < 0, show_nat (nat \<bar>i\<bar>) @ rest)"
proof (cases "i < 0")
  case True
  then show ?thesis by (simp add: show_int_def read_sign_def)
next
  case False
  obtain c cs where cs: "show_nat (nat i) = c # cs"
    using show_nat_nonempty by (cases "show_nat (nat i)") auto
  then have "isdigit c" using show_nat_digits [of "nat i"] by simp
  then have "c \<noteq> CHR ''-''" "c \<noteq> CHR ''+''" using isdigit_not_sign by auto
  then show ?thesis using False cs by (simp add: show_int_def read_sign_def)
qed

lemma extract_int_show_int:
  assumes "INT_MIN \<le> i" "i \<le> INT_MAX" "rest = [] \<or> \<not> isdigit (hd rest)"
  shows "extract_int (show_int i @ rest) = (i, False, rest)"
proof -
  define ds where "ds = show_nat (nat \<bar>i\<bar>)"
  have dig: "\<And>x. x \<in> set ds \<Longrightarrow> isdigit x" and ne: "ds \<noteq> []"
    using show_nat_digits [of "nat \<bar>i\<bar>"] show_nat_nonempty by (auto simp: ds_def)
  have tw: "takeWhile isdigit (ds @ rest) = ds"
    using dig assms(3) by (cases rest) (simp_all add: takeWhile_tail)
  have dw: "dropWhile isdigit (ds @ rest) = rest"
    using dig assms(3) by (cases rest) (simp_all add: dropWhile_append2)
  have v: "(if i < 0 then - digits_val ds else digits_val ds) = i"
    by (simp add: ds_def digits_val_show_nat)
  have rs: "read_sign (show_int i @ rest) = (i < 0, ds @ rest)"
    unfolding ds_def by (rule read_sign_show_int)
  have "extract_int (show_int i @ rest) =
     (let v = (if i < 0 then - digits_val ds else digits_val ds)
      in if v < INT_MIN then (INT_MIN, True, rest)
         else if INT_MAX < v then (INT_MAX, True, rest) else (v, False, rest))"
    unfolding extract_int_def rs by (simp add: tw dw ne Let_def)
  also have "\<dots> = (i, False, rest)"
    unfolding v Let_def using assms(1,2) by simp
  finally show ?thesis .
qed

lemma show_int_no_space: "c \<in> set (show_int i) \<Longrightarrow> \<not> isspace c"
proof -
  assume c: "c \<in> set (show_int i)"
  have minus: "\<not> isspace CHR ''-''" by (simp add: isspace_def SP_def LF_def CR_def)
  from c have "c = CHR ''-'' \<or> isdigit c"
    using show_nat_digits [of "nat i"] show_nat_digits [of "nat (- i)"]
    by (auto simp: show_int_def split: if_splits)
  then show ?thesis using minus isdigit_not_space by auto
qed

lemma show_int_nonempty: "show_int i \<noteq> []"
  by (simp add: show_int_def show_nat_nonempty)

lemma extract_int_range:
  "extract_int s = (v, f, s4) \<Longrightarrow> INT_MIN \<le> v \<and> v \<le> INT_MAX"
  by (auto simp: extract_int_def Let_def INT_MIN_def INT_MAX_def split: prod.splits if_splits)

lemma parse_status_line_unfold:
  assumes "s1 = dropWhile isspace l" "ver = takeWhile (\<lambda>c. \<not> isspace c) s1"
    "s2 = dropWhile (\<lambda>c. \<not> isspace c) s1" "s3 = dropWhile isspace s2"
    "extract_int s3 = (v, f, s4)" "msg = takeWhile (\<lambda>c. c \<noteq> LF) s4"
  shows "parse_status_line r l =
     (if s1 = [] then r
      else if s2 = [] then r\<lparr>http_version := ver\<rparr>
      else if s3 = [] then r\<lparr>http_version := ver\<rparr>
      else if f \<or> s4 = [] then r\<lparr>http_version := ver, status_code := v\<rparr>
      else r\<lparr>http_version := ver, status_code := v, status_message := msg\<rparr>)"
  unfolding parse_status_line_def Let_def assms(1) [symmetric] assms(2) [symmetric]
    assms(3) [symmetric] assms(4) [symmetric] assms(5) assms(6)
  by simp

lemma parse_status_line_shape:
  "\<exists>c1 c2 c3 c4 ver v msg. parse_status_line r l =
     (if c1 then r
      else if c2 then r\<lparr>http_version := ver\<rparr>
      else if c3 then r\<lparr>http_version := ver\<rparr>
      else if c4 then r\<lparr>http_version := ver, status_code := v\<rparr>
      else r\<lparr>http_version := ver, status_code := v, status_message := msg\<rparr>)"
proof -
  obtain v f s4 where ex: "extract_int (dropWhile isspace (dropWhile (\<lambda>c. \<not> isspace c)
      (dropWhile isspace l))) = (v, f, s4)"
    by (cases "extract_int (dropWhile isspace (dropWhile (\<lambda>c. \<not> isspace c)
      (dropWhile isspace l)))")
  show ?thesis
    by (intro exI) (rule parse_status_line_unfold [OF refl refl refl refl ex refl])
qed

lemma parse_status_line_rest [simp]:
  "header (parse_status_line r l) = header r"
  "body (parse_status_line r l) = body r"
  "is_chunked (parse_status_line r l) = is_chunked r"
  "content_length (parse_status_line r l) = content_length r"
proof -
  obtain c1 c2 c3 c4 ver v msg where u: "parse_status_line r l =
     (if c1 then r
      else if c2 then r\<lparr>http_version := ver\<rparr>
      else if c3 then r\<lparr>http_version := ver\<rparr>
      else if c4 then r\<lparr>http_version := ver, status_code := v\<rparr>
      else r\<lparr>http_version := ver, status_code := v, status_message := msg\<rparr>)"
    using parse_status_line_shape by blast
  show "header (parse_status_line r l) = header r"
    "body (parse_status_line r l) = body r"
    "is_chunked (parse_status_line r l) = is_chunked r"
    "content_length (parse_status_line r l) = content_length r"
    unfolding u by simp_all
qed


lemma parse_status_line_inv: "status_inv (parse_status_line Response_init l)"
proof -
  define s1 where "s1 = dropWhile isspace l"
  define ver where "ver = takeWhile (\<lambda>c. \<not> isspace c) s1"
  define s2 where "s2 = dropWhile (\<lambda>c. \<not> isspace c) s1"
  define s3 where "s3 = dropWhile isspace s2"
  obtain v f s4 where ex: "extract_int s3 = (v, f, s4)" by (cases "extract_int s3")
  define msg where "msg = takeWhile (\<lambda>c. c \<noteq> LF) s4"
  note unfold = parse_status_line_unfold [OF s1_def ver_def s2_def s3_def ex msg_def, of Response_init]
  have ne: "ver \<noteq> []" if "s1 \<noteq> []"
  proof -
    have "\<not> isspace (hd s1)" using that unfolding s1_def by (metis hd_dropWhile)
    then show ?thesis using that unfolding ver_def by (cases s1) auto
  qed
  have ns: "\<forall>c \<in> set ver. \<not> isspace c"
    unfolding ver_def by (auto dest: set_takeWhileD)
  have lf: "LF \<notin> set msg"
    unfolding msg_def by (auto dest: set_takeWhileD)
  have rng: "INT_MIN \<le> v" "v \<le> INT_MAX" using extract_int_range [OF ex] by simp_all
  have init: "status_inv Response_init"
    by (simp add: status_inv_def Response_init_def INT_MIN_def INT_MAX_def)
  have z: "INT_MIN \<le> 0" "0 \<le> INT_MAX" by (simp_all add: INT_MIN_def INT_MAX_def)
  consider "s1 = []" | "s1 \<noteq> []" "s2 = [] \<or> s3 = []"
    | "s1 \<noteq> []" "s2 \<noteq> []" "s3 \<noteq> []" "f \<or> s4 = []"
    | "s1 \<noteq> []" "s2 \<noteq> []" "s3 \<noteq> []" "\<not> (f \<or> s4 = [])"
    by blast
  then show ?thesis
  proof cases
    case 1
    then show ?thesis using init by (simp add: unfold)
  next
    case 2
    then have "parse_status_line Response_init l = Response_init\<lparr>http_version := ver\<rparr>"
      by (auto simp: unfold)
    then show ?thesis using ne [OF 2(1)] ns z by (simp add: status_inv_def Response_init_def)
  next
    case 3
    then have "parse_status_line Response_init l = Response_init\<lparr>http_version := ver, status_code := v\<rparr>"
      by (simp add: unfold)
    then show ?thesis using ne [OF 3(1)] ns rng by (simp add: status_inv_def Response_init_def)
  next
    case 4
    then have "parse_status_line Response_init l =
        Response_init\<lparr>http_version := ver, status_code := v, status_message := msg\<rparr>"
      by (simp add: unfold)
    then show ?thesis using ne [OF 4(1)] ns rng lf by (simp add: status_inv_def Response_init_def)
  qed
qed

lemma not_isdigit_SP: "\<not> isdigit SP"
  by (simp add: isdigit_def SP_def less_eq_char_def)

lemma isspace_SP: "isspace SP"
  by (simp add: isspace_def)


lemma status_reparse:
  assumes "status_inv R"
  shows "status_code (parse_status_line Response_init
           (http_version R @ SP # show_int (status_code R) @ SP # status_message R @ [CR]))
         = status_code R"
proof (cases "http_version R = []")
  case True
  then have "status_code R = 0" "status_message R = []"
    using assms by (simp_all add: status_inv_def)
  moreover have "status_code (parse_status_line Response_init (SP # show_int 0 @ [SP, CR])) = 0"
    by code_simp
  ultimately show ?thesis using True by simp
next
  case False
  define ver where "ver = http_version R"
  define code where "code = status_code R"
  define tail where "tail = SP # status_message R @ [CR]"
  have ver: "ver \<noteq> []" "\<And>c. c \<in> set ver \<Longrightarrow> \<not> isspace c"
    using False assms by (auto simp: ver_def status_inv_def)
  have rng: "INT_MIN \<le> code" "code \<le> INT_MAX"
    using assms by (auto simp: code_def status_inv_def)
  define l where "l = ver @ SP # show_int code @ tail"
  have s1: "l = dropWhile isspace l"
    unfolding l_def using ver by (cases ver) auto
  have tk: "ver = takeWhile (\<lambda>c. \<not> isspace c) l"
    unfolding l_def using ver by (simp add: takeWhile_tail isspace_SP)
  have dr: "SP # show_int code @ tail = dropWhile (\<lambda>c. \<not> isspace c) l"
    unfolding l_def using ver by (simp add: dropWhile_append2 isspace_SP)
  have s3: "show_int code @ tail = dropWhile isspace (SP # show_int code @ tail)"
    using show_int_no_space [of _ code] show_int_nonempty [of code]
    by (cases "show_int code") (auto simp: isspace_SP)
  have ex: "extract_int (show_int code @ tail) = (code, False, tail)"
    using rng by (intro extract_int_show_int) (simp_all add: tail_def not_isdigit_SP)
  have ne: "l \<noteq> []" "show_int code @ tail \<noteq> []" "tail \<noteq> []"
    by (simp_all add: l_def tail_def)
  have "parse_status_line Response_init l =
      Response_init\<lparr>http_version := ver, status_code := code,
         status_message := takeWhile (\<lambda>c. c \<noteq> LF) tail\<rparr>"
    unfolding parse_status_line_unfold [OF s1 tk dr s3 ex refl, of Response_init]
    using ne by simp
  then show ?thesis by (simp add: l_def ver_def code_def tail_def)
qed

subsection \<open>The sorted header list\<close>

lemma map_assign_set:
  "sorted_wrt (<) (map fst h) \<Longrightarrow>
   set (map_assign k v h) = insert (k, v) {kv \<in> set h. fst kv \<noteq> k}"
proof (induction h)
  case Nil
  show ?case by simp
next
  case (Cons x h)
  obtain k' v' where x: "x = (k', v')" by (cases x)
  have later: "\<And>kv. kv \<in> set h \<Longrightarrow> k' < fst kv" using Cons.prems x by auto
  show ?case
  proof (cases "k = k'")
    case True
    then show ?thesis using later x by (auto simp: less_le)
  next
    case False
    show ?thesis
    proof (cases "k < k'")
      case True
      then have "\<And>kv. kv \<in> set h \<Longrightarrow> fst kv \<noteq> k" using later by fastforce
      then show ?thesis using True False x by auto
    next
      case ge: False
      have "set (map_assign k v h) = insert (k, v) {kv \<in> set h. fst kv \<noteq> k}"
        using Cons by simp
      then show ?thesis using ge False x by auto
    qed
  qed
qed

lemma map_assign_sorted:
  "sorted_wrt (<) (map fst h) \<Longrightarrow> sorted_wrt (<) (map fst (map_assign k v h))"
proof (induction h)
  case Nil
  show ?case by simp
next
  case (Cons x h)
  obtain k' v' where x: "x = (k', v')" by (cases x)
  have later: "\<And>kv. kv \<in> set h \<Longrightarrow> k' < fst kv" using Cons.prems x by auto
  have tl: "sorted_wrt (<) (map fst h)" using Cons.prems by simp
  show ?case
  proof (cases "k = k' \<or> k < k'")
    case True
    then show ?thesis using Cons.prems x later by (auto simp: less_trans)
  next
    case False
    then have "k' < k" by auto
    moreover have "set (map_assign k v h) = insert (k, v) {kv \<in> set h. fst kv \<noteq> k}"
      using tl by (rule map_assign_set)
    ultimately have "\<And>kv. kv \<in> set (map_assign k v h) \<Longrightarrow> k' < fst kv"
      using later by auto
    then show ?thesis using False x Cons.IH [OF tl] by auto
  qed
qed

lemma map_assign_last:
  "(\<And>kv. kv \<in> set h \<Longrightarrow> fst kv < k) \<Longrightarrow> map_assign k v h = h @ [(k, v)]"
proof (induction h)
  case Nil
  show ?case by simp
next
  case (Cons x h)
  obtain k' v' where x: "x = (k', v')" by (cases x)
  have "k' < k" using Cons.prems [of x] x by simp
  then have "k \<noteq> k'" "\<not> k < k'" by auto
  moreover have "map_assign k v h = h @ [(k, v)]" using Cons by simp
  ultimately show ?case using x by simp
qed

lemma foldl_map_assign_sorted:
  "sorted_wrt (<) (map fst (h @ xs)) \<Longrightarrow>
   foldl (\<lambda>h kv. map_assign (fst kv) (snd kv) h) h xs = h @ xs"
proof (induction xs arbitrary: h)
  case Nil
  show ?case by simp
next
  case (Cons x xs)
  have "\<And>kv. kv \<in> set h \<Longrightarrow> fst kv < fst x"
    using Cons.prems by (auto simp: sorted_wrt_append)
  then have "map_assign (fst x) (snd x) h = h @ [x]"
    using map_assign_last [of h "fst x" "snd x"] by simp
  moreover have "foldl (\<lambda>h kv. map_assign (fst kv) (snd kv) h) (h @ [x]) xs = (h @ [x]) @ xs"
    using Cons.prems by (intro Cons.IH) simp
  ultimately show ?case by simp
qed

subsection \<open>Trimming\<close>

lemma rtrim_prefix: "\<exists>t. w = rtrim c w @ t"
proof -
  have "rev w = takeWhile (\<lambda>x. x = c) (rev w) @ dropWhile (\<lambda>x. x = c) (rev w)" by simp
  then have "rev (rev w) =
      rev (takeWhile (\<lambda>x. x = c) (rev w) @ dropWhile (\<lambda>x. x = c) (rev w))"
    by (rule arg_cong)
  then have "w = rev (dropWhile (\<lambda>x. x = c) (rev w)) @ rev (takeWhile (\<lambda>x. x = c) (rev w))"
    by (simp only: rev_append rev_rev_ident)
  then show ?thesis unfolding rtrim_def by (rule exI)
qed

lemma rtrim_snoc [simp]: "rtrim c (w @ [c]) = rtrim c w"
  by (simp add: rtrim_def)

lemma rtrim_idem [simp]: "rtrim c (rtrim c w) = rtrim c w"
  by (simp add: rtrim_def dropWhile_idem)

lemma ltrim_Cons [simp]: "ltrim c (c # w) = ltrim c w"
  by (simp add: ltrim_def)

lemma trim_stable:
  assumes "v = rtrim CR (ltrim SP raw)"
  shows "rtrim CR (ltrim SP (SP # v @ [CR])) = v"
proof (cases "v = []")
  case True
  have "CR \<noteq> SP" by (simp add: CR_def SP_def)
  then have "ltrim SP [SP, CR] = [CR]" by (simp add: ltrim_def)
  moreover have "rtrim CR [CR] = []" by (simp add: rtrim_def)
  ultimately show ?thesis using True by simp
next
  case False
  define w where "w = ltrim SP raw"
  have v: "v = rtrim CR w" using assms w_def by simp
  obtain t where w: "w = v @ t" unfolding v using rtrim_prefix [of w CR] by blast
  have "w \<noteq> []" using w False by simp
  then have "\<not> (hd w = SP)" unfolding w_def ltrim_def by (rule hd_dropWhile)
  moreover have "hd w = hd v" using w False by simp
  ultimately have "hd v \<noteq> SP" by simp
  then have "dropWhile (\<lambda>x. x = SP) (v @ [CR]) = v @ [CR]" using False by (cases v) simp_all
  then have "ltrim SP (SP # v @ [CR]) = v @ [CR]" by (simp add: ltrim_def)
  moreover have "rtrim CR (v @ [CR]) = v" unfolding rtrim_snoc v by (rule rtrim_idem)
  ultimately show ?thesis by simp
qed

lemma set_ltrim: "set (ltrim c w) \<subseteq> set w"
  unfolding ltrim_def by (auto dest: set_dropWhileD)

lemma set_rtrim: "set (rtrim c w) \<subseteq> set w"
  unfolding rtrim_def by (auto dest: set_dropWhileD)

lemma find_char_first:
  assumes "c \<notin> set k"
  shows "find_char (k @ c # w) c = Some (length k)"
proof -
  have "\<And>x. x \<in> set k \<Longrightarrow> x \<noteq> c" using assms by auto
  then have "takeWhile (\<lambda>x. x \<noteq> c) (k @ c # w) = k" by (simp add: takeWhile_tail)
  then show ?thesis by (simp add: find_char_def)
qed

lemma find_char_Some:
  assumes "find_char l c = Some n"
  shows "c \<notin> set (take n l) \<and> n < length l"
proof -
  define tw where "tw = takeWhile (\<lambda>x. x \<noteq> c) l"
  define dw where "dw = dropWhile (\<lambda>x. x \<noteq> c) l"
  have n: "n = length tw" and mem: "c \<in> set l"
    using assms by (auto simp: find_char_def tw_def split: if_splits)
  have l: "l = tw @ dw" by (simp add: tw_def dw_def)
  have "c \<notin> set tw" unfolding tw_def by (auto dest: set_takeWhileD)
  then have "dw \<noteq> []" using mem l by auto
  then have "n < length l" using n l by simp
  moreover have "take n l = tw" using n l by simp
  ultimately show ?thesis using \<open>c \<notin> set tw\<close> by simp
qed

subsection \<open>What the header loop keeps true\<close>

lemma same_status_refl [simp]: "same_status r r"
  by (simp add: same_status_def)

lemma same_status_trans: "same_status a b \<Longrightarrow> same_status b c \<Longrightarrow> same_status a c"
  by (simp add: same_status_def)

lemma TE_neq_CL: "HEADER_TRANSFER \<noteq> HEADER_CONTENT_LEN"
  by (simp add: HEADER_TRANSFER_def HEADER_CONTENT_LEN_def)

lemma store_header_cases:
  assumes "k = take colomn line" "v = rtrim CR (ltrim SP (drop (colomn + 1) line))"
    "h = map_assign k v (header r)"
  shows "store_header r line colomn =
     (if k = HEADER_TRANSFER \<and> str_find v HEADER_CHUNCK \<noteq> None
      then Inr (r\<lparr>header := h, is_chunked := True\<rparr>)
      else if k = HEADER_CONTENT_LEN
      then (case stoi v of Inl e \<Rightarrow> Inl e | Inr n \<Rightarrow> Inr (r\<lparr>header := h, content_length := n\<rparr>))
      else Inr (r\<lparr>header := h\<rparr>))"
  unfolding store_header_def Let_def assms by simp

lemma store_header_inv:
  assumes inv: "hdr_inv r" and lf: "LF \<notin> set line"
    and col: "find_char line (CHR '':'') = Some colomn"
    and res: "store_header r line colomn = Inr r1"
  shows "hdr_inv r1 \<and> same_status r r1"
proof -
  define k where "k = take colomn line"
  define v where "v = rtrim CR (ltrim SP (drop (colomn + 1) line))"
  define h where "h = map_assign k v (header r)"
  note sc = store_header_cases [OF k_def v_def h_def]
  have srt: "sorted_wrt (<) (map fst (header r))" using inv by (simp add: hdr_inv_def)
  have h_set: "set h = insert (k, v) {kv \<in> set (header r). fst kv \<noteq> k}"
    unfolding h_def using srt by (rule map_assign_set)
  have h_srt: "sorted_wrt (<) (map fst h)"
    unfolding h_def using srt by (rule map_assign_sorted)
  have "CHR '':'' \<notin> set k" using find_char_Some [OF col] by (simp add: k_def)
  moreover have "LF \<notin> set k" using lf unfolding k_def by (auto dest: in_set_takeD)
  moreover have "LF \<notin> set v"
    using lf set_rtrim [of CR "ltrim SP (drop (colomn + 1) line)"]
      set_ltrim [of SP "drop (colomn + 1) line"]
    unfolding v_def by (auto dest: in_set_dropD)
  moreover have "rtrim CR (ltrim SP (SP # v @ [CR])) = v"
    using v_def by (rule trim_stable)
  ultimately have ok_new: "hdr_ok (k, v)" by (simp add: hdr_ok_def)
  have ok: "\<forall>kv \<in> set h. hdr_ok kv"
    using ok_new inv by (auto simp: h_set hdr_inv_def)
  have old_cl: "\<And>w. (HEADER_CONTENT_LEN, w) \<in> set (header r) \<Longrightarrow> stoi w = Inr (content_length r)"
    and no_cl: "(\<And>w. (HEADER_CONTENT_LEN, w) \<notin> set (header r)) \<Longrightarrow> content_length r = - 1"
    and old_te: "\<And>w. \<not> is_chunked r \<Longrightarrow> (HEADER_TRANSFER, w) \<in> set (header r) \<Longrightarrow>
        str_find w HEADER_CHUNCK = None"
    using inv by (auto simp: hdr_inv_def)
  consider (te) "k = HEADER_TRANSFER" "str_find v HEADER_CHUNCK \<noteq> None"
    | (te') "k = HEADER_TRANSFER" "str_find v HEADER_CHUNCK = None"
    | (cl) "k = HEADER_CONTENT_LEN"
    | (other) "k \<noteq> HEADER_TRANSFER" "k \<noteq> HEADER_CONTENT_LEN"
    by blast
  then show ?thesis
  proof cases
    case te
    then have r1: "r1 = r\<lparr>header := h, is_chunked := True\<rparr>"
      using res unfolding sc by simp
    have "hdr_inv r1"
      unfolding hdr_inv_def r1 using h_srt ok old_cl no_cl te(1) TE_neq_CL
      by (auto simp: h_set)
    then show ?thesis by (simp add: r1 same_status_def)
  next
    case te'
    then have r1: "r1 = r\<lparr>header := h\<rparr>"
      using res TE_neq_CL unfolding sc by simp
    have "hdr_inv r1"
      unfolding hdr_inv_def r1 using h_srt ok old_cl no_cl old_te te' TE_neq_CL
      by (auto simp: h_set)
    then show ?thesis by (simp add: r1 same_status_def)
  next
    case cl
    then obtain n where n: "stoi v = Inr n" and r1: "r1 = r\<lparr>header := h, content_length := n\<rparr>"
      using res TE_neq_CL unfolding sc by (auto split: sum.splits)
    have "hdr_inv r1"
      unfolding hdr_inv_def r1 using h_srt ok old_te cl n TE_neq_CL
      by (auto simp: h_set)
    then show ?thesis by (simp add: r1 same_status_def)
  next
    case other
    then have r1: "r1 = r\<lparr>header := h\<rparr>"
      using res unfolding sc by simp
    have "hdr_inv r1"
      unfolding hdr_inv_def r1 using h_srt ok old_cl no_cl old_te other
      by (auto simp: h_set)
    then show ?thesis by (simp add: r1 same_status_def)
  qed
qed


lemma header_loop_inv:
  "header_loop r s = Inr (r', rest) \<Longrightarrow> hdr_inv r \<Longrightarrow> hdr_inv r' \<and> same_status r r'"
proof (induction r s arbitrary: r' rest rule: header_loop.induct)
  case (1 r s)
  show ?case
  proof (cases "getline LF s")
    case None
    then have "r' = r" using "1.prems"(1) by (subst (asm) header_loop.simps) simp
    then show ?thesis using "1.prems"(2) by simp
  next
    case (Some p)
    obtain line rest0 where p: "p = (line, rest0)" by (cases p)
    note gl = Some [unfolded p]
    show ?thesis
    proof (cases "line = [CR] \<or> line = []")
      case True
      then have "r' = r" using "1.prems"(1) gl by (subst (asm) header_loop.simps) auto
      then show ?thesis using "1.prems"(2) by simp
    next
      case stop: False
      show ?thesis
      proof (cases "find_char line (CHR '':'')")
        case None
        then have "header_loop r rest0 = Inr (r', rest)"
          using "1.prems"(1) gl stop by (subst (asm) header_loop.simps) simp
        then show ?thesis
          using "1.IH"(1) [OF gl [symmetric, THEN sym] refl stop None] "1.prems"(2) by blast
      next
        case (Some colomn)
        then obtain r1 where sh: "store_header r line colomn = Inr r1"
          and next_loop: "header_loop r1 rest0 = Inr (r', rest)"
          using "1.prems"(1) gl stop
          by (subst (asm) header_loop.simps) (auto split: sum.splits)
        have lf: "LF \<notin> set line" using gl by (rule getline_line)
        have step: "hdr_inv r1" "same_status r r1"
          using store_header_inv [OF "1.prems"(2) lf Some sh] by simp_all
        have "hdr_inv r' \<and> same_status r1 r'"
          using "1.IH"(2) [OF gl refl stop Some sh next_loop step(1)] .
        then show ?thesis using step(2) same_status_trans by blast
      qed
    qed
  qed
qed

subsection \<open>Reading back the lines that toString writes\<close>

lemma header_loop_end: "header_loop r (CR # LF # b) = Inr (r, b)"
proof -
  have "CR \<noteq> LF" by (simp add: CR_def LF_def)
  then have "getline LF ([CR] @ LF # b) = Some ([CR], b)"
    by (intro getline_append) simp
  then show ?thesis by (subst header_loop.simps) simp
qed

lemma header_loop_line:
  assumes ok: "hdr_ok (k, v)"
  shows "header_loop r (header_line (k, v) @ s) =
     (case store_header r (k @ '': '' @ v @ [CR]) (length k) of
        Inl e \<Rightarrow> Inl e
      | Inr r1 \<Rightarrow> header_loop r1 s)"
proof -
  define line where "line = k @ '': '' @ v @ [CR]"
  have "CR \<noteq> LF" "CHR '':'' \<noteq> LF" "CHR '' '' \<noteq> LF" by (simp_all add: CR_def LF_def)
  then have "LF \<notin> set line" using ok by (simp add: line_def hdr_ok_def)
  then have gl: "getline LF (line @ LF # s) = Some (line, s)" by (rule getline_append)
  have eq: "header_line (k, v) @ s = line @ LF # s" by (simp add: header_line_def line_def)
  have ne: "line \<noteq> [CR]" "line \<noteq> []"
    by (auto simp: line_def append_eq_Cons_conv)
  have "CHR '':'' \<notin> set k" using ok by (simp add: hdr_ok_def)
  then have fc: "find_char line (CHR '':'') = Some (length k)"
    unfolding line_def by (simp add: find_char_first)
  show ?thesis
    unfolding eq line_def [symmetric]
    by (subst header_loop.simps) (simp add: gl ne fc)
qed

lemma store_header_line:
  assumes ok: "hdr_ok (k, v)"
  shows "store_header r (k @ '': '' @ v @ [CR]) (length k) =
     (if k = HEADER_TRANSFER \<and> str_find v HEADER_CHUNCK \<noteq> None
      then Inr (r\<lparr>header := map_assign k v (header r), is_chunked := True\<rparr>)
      else if k = HEADER_CONTENT_LEN
      then (case stoi v of Inl e \<Rightarrow> Inl e
            | Inr n \<Rightarrow> Inr (r\<lparr>header := map_assign k v (header r), content_length := n\<rparr>))
      else Inr (r\<lparr>header := map_assign k v (header r)\<rparr>))"
proof -
  have sp: "CHR '' '' = SP" by (simp add: SP_def)
  have v: "v = rtrim CR (ltrim SP (drop (length k + 1) (k @ '': '' @ v @ [CR])))"
    using ok by (simp add: hdr_ok_def sp)
  show ?thesis
    by (rule store_header_cases [OF _ v refl]) simp
qed

lemma header_loop_generated:
  assumes "\<forall>kv \<in> set xs. hdr_ok kv"
    and "\<forall>v. (HEADER_CONTENT_LEN, v) \<in> set xs \<longrightarrow> (\<exists>n. stoi v = Inr n)"
  shows "\<exists>r'. header_loop r (concat (map header_line xs) @ CR # LF # b) = Inr (r', b) \<and>
           header r' = foldl (\<lambda>h kv. map_assign (fst kv) (snd kv) h) (header r) xs \<and>
           (is_chunked r' \<longrightarrow> is_chunked r \<or>
              (\<exists>v. (HEADER_TRANSFER, v) \<in> set xs \<and> str_find v HEADER_CHUNCK \<noteq> None)) \<and>
           same_status r r'"
  using assms
proof (induction xs arbitrary: r)
  case Nil
  show ?case by (simp add: header_loop_end)
next
  case (Cons x xs)
  obtain k v where x: "x = (k, v)" by (cases x)
  have ok: "hdr_ok (k, v)" using Cons.prems(1) x by simp
  have tl: "\<forall>kv \<in> set xs. hdr_ok kv"
    "\<forall>v. (HEADER_CONTENT_LEN, v) \<in> set xs \<longrightarrow> (\<exists>n. stoi v = Inr n)"
    using Cons.prems by simp_all
  have cl: "k = HEADER_CONTENT_LEN \<Longrightarrow> \<exists>n. stoi v = Inr n"
    using Cons.prems(2) x by simp
  have "\<exists>r1. store_header r (k @ '': '' @ v @ [CR]) (length k) = Inr r1 \<and>
      header r1 = map_assign k v (header r) \<and>
      (is_chunked r1 \<longrightarrow> is_chunked r \<or> (k = HEADER_TRANSFER \<and> str_find v HEADER_CHUNCK \<noteq> None)) \<and>
      same_status r r1"
  proof (cases "k = HEADER_TRANSFER \<and> str_find v HEADER_CHUNCK \<noteq> None")
    case True
    then show ?thesis unfolding store_header_line [OF ok] by (simp add: same_status_def)
  next
    case nte: False
    show ?thesis
    proof (cases "k = HEADER_CONTENT_LEN")
      case True
      then obtain n where "stoi v = Inr n" using cl by blast
      then show ?thesis
        unfolding store_header_line [OF ok] using True TE_neq_CL by (simp add: same_status_def)
    next
      case False
      then show ?thesis
        unfolding store_header_line [OF ok] using nte by (auto simp: same_status_def)
    qed
  qed
  then obtain r1 where sh: "store_header r (k @ '': '' @ v @ [CR]) (length k) = Inr r1"
    and h1: "header r1 = map_assign k v (header r)"
    and c1: "is_chunked r1 \<longrightarrow> is_chunked r \<or> (k = HEADER_TRANSFER \<and> str_find v HEADER_CHUNCK \<noteq> None)"
    and s1: "same_status r r1"
    by blast
  obtain r' where loop: "header_loop r1 (concat (map header_line xs) @ CR # LF # b) = Inr (r', b)"
    and h': "header r' = foldl (\<lambda>h kv. map_assign (fst kv) (snd kv) h) (header r1) xs"
    and c': "is_chunked r' \<longrightarrow> is_chunked r1 \<or>
              (\<exists>v. (HEADER_TRANSFER, v) \<in> set xs \<and> str_find v HEADER_CHUNCK \<noteq> None)"
    and s': "same_status r1 r'"
    using Cons.IH [OF tl, of r1] by blast
  have "header_loop r (concat (map header_line (x # xs)) @ CR # LF # b) = Inr (r', b)"
    using header_loop_line [OF ok, of r "concat (map header_line xs) @ CR # LF # b"] sh loop
    by (simp add: x)
  moreover have "header r' = foldl (\<lambda>h kv. map_assign (fst kv) (snd kv) h) (header r) (x # xs)"
    using h' h1 by (simp add: x)
  moreover have "is_chunked r' \<longrightarrow> is_chunked r \<or>
              (\<exists>v. (HEADER_TRANSFER, v) \<in> set (x # xs) \<and> str_find v HEADER_CHUNCK \<noteq> None)"
    using c' c1 x by auto
  moreover have "same_status r r'" using s1 s' by (rule same_status_trans)
  ultimately show ?case by blast
qed

subsection \<open>The body\<close>

lemma getline_shorter: "getline d s = Some (l, rest) \<Longrightarrow> length rest < length s"
proof -
  assume a: "getline d s = Some (l, rest)"
  then have "s \<noteq> []" and "rest = drop 1 (dropWhile (\<lambda>c. c \<noteq> d) s)"
    by (auto simp: getline_def split: if_splits)
  moreover have "length (dropWhile (\<lambda>c. c \<noteq> d) s) \<le> length s"
    by (rule length_dropWhile_le)
  ultimately show ?thesis by (cases s) (auto simp: le_Suc_eq)
qed

lemma body_loop_acc: "body_loop acc s = acc @ body_loop [] s"
proof (induction "length s" arbitrary: acc s rule: less_induct)
  case less
  show ?case
  proof (cases "getline LF s")
    case None
    then show ?thesis by (subst (1 2) body_loop.simps) simp
  next
    case (Some p)
    obtain line rest where p: "p = (line, rest)" by (cases p)
    have sh: "length rest < length s" using Some p getline_shorter by blast
    have "body_loop acc s = body_loop (acc @ line @ [LF]) rest"
      using Some p by (subst body_loop.simps) simp
    also have "\<dots> = (acc @ line @ [LF]) @ body_loop [] rest"
      using sh by (rule less.hyps)
    also have "\<dots> = acc @ body_loop (line @ [LF]) rest"
      using less.hyps [OF sh, of "line @ [LF]"] by simp
    also have "\<dots> = acc @ body_loop [] s"
      using Some p by (subst (2) body_loop.simps) simp
    finally show ?thesis .
  qed
qed

lemma body_loop_Nil [simp]: "body_loop acc [] = acc"
  by (subst body_loop.simps) simp

lemma body_loop_idem: "body_loop [] (body_loop [] s) = body_loop [] s"
proof (induction "length s" arbitrary: s rule: less_induct)
  case less
  show ?case
  proof (cases "getline LF s")
    case None
    then have "body_loop [] s = []" by (subst body_loop.simps) simp
    then show ?thesis by simp
  next
    case (Some p)
    obtain line rest where p: "p = (line, rest)" by (cases p)
    have sh: "length rest < length s" using Some p getline_shorter by blast
    have lf: "LF \<notin> set line" using Some p getline_line by blast
    define B where "B = body_loop [] rest"
    have s: "body_loop [] s = line @ LF # B"
      using Some p body_loop_acc [of "line @ [LF]" rest]
      by (subst body_loop.simps) (simp add: B_def)
    have "body_loop [] (line @ LF # B) = body_loop (line @ [LF]) B"
      using getline_append [OF lf, of B] by (subst body_loop.simps) simp
    also have "\<dots> = line @ LF # body_loop [] B"
      using body_loop_acc [of "line @ [LF]" B] by simp
    also have "body_loop [] B = B" unfolding B_def using sh by (rule less.hyps)
    finally show ?thesis by (simp add: s)
  qed
qed

subsection \<open>What the cache directives and the expiry leave alone\<close>

lemma process_directive_core: "core (fst (process_directive r b d)) = core r"
  by (simp add: process_directive_def Let_def core_def split: sum.splits)

lemma directives_loop_core: "core (directives_loop r b s) = core r"
proof (induction "length s" arbitrary: r b s rule: less_induct)
  case less
  show ?case
  proof (cases "getline (CHR '','') s")
    case None
    then show ?thesis by (subst directives_loop.simps) simp
  next
    case (Some p)
    obtain d rest where p: "p = (d, rest)" by (cases p)
    obtain r1 b1 where pd: "process_directive r b d = (r1, b1)" by (cases "process_directive r b d")
    have sh: "length rest < length s" using Some p getline_shorter by blast
    have "core r1 = core r" using process_directive_core [of r b d] pd by simp
    moreover have "directives_loop r b s = directives_loop r1 b1 rest"
      using Some p pd by (subst directives_loop.simps) simp
    moreover have "core (directives_loop r1 b1 rest) = core r1" using sh by (rule less.hyps)
    ultimately show ?thesis by simp
  qed
qed

lemma parseCacheControl_core: "core (parseCacheControl r) = core r"
proof (cases "map_of (header r) HEADER_CACHECTRL")
  case None
  then show ?thesis by (simp add: parseCacheControl_def)
next
  case (Some v)
  have "core (directives_loop r False v\<lparr>cache_mode := CACHE_NORMAL\<rparr>) = core (directives_loop r False v)"
    by (simp add: core_def)
  then show ?thesis
    using Some directives_loop_core [of r False v] by (simp add: parseCacheControl_def Let_def)
qed

lemma setExpiredTime_core: "core (setExpiredTime L r) = core r"
  by (simp add: setExpiredTime_def Let_def core_def split: option.splits)

lemma hdr_inv_core: "core r' = core r \<Longrightarrow> hdr_inv r' = hdr_inv r"
  by (simp add: core_def hdr_inv_def)

lemma status_inv_core: "core r' = core r \<Longrightarrow> status_inv r' = status_inv r"
  by (simp add: core_def status_inv_def)

lemma hdr_inv_init: "hdr_inv Response_init"
  by (simp add: hdr_inv_def Response_init_def)

lemma parseResponse_result:
  assumes "parseResponse L r0 buf = Inr R"
  shows "\<exists>l rest r2 rest2. getline LF buf = Some (l, rest) \<and>
           header_loop (parse_status_line r0 l) rest = Inr (r2, rest2) \<and>
           core R = core (if \<not> is_chunked r2 then r2\<lparr>body := body_loop [] rest2\<rparr> else r2)"
proof -
  obtain l rest where gl: "getline LF buf = Some (l, rest)"
    using assms by (cases "getline LF buf") (auto simp: parseResponse_def)
  obtain r2 rest2 where hl: "header_loop (parse_status_line r0 l) rest = Inr (r2, rest2)"
    using assms gl by (cases "header_loop (parse_status_line r0 l) rest") (auto simp: parseResponse_def)
  define r3 where "r3 = (if \<not> is_chunked r2 then r2\<lparr>body := body_loop [] rest2\<rparr> else r2)"
  have "R = setExpiredTime L (parseCacheControl r3)"
    using assms gl hl by (simp add: parseResponse_def r3_def Let_def)
  then have "core R = core r3" by (simp add: setExpiredTime_core parseCacheControl_core)
  then show ?thesis using gl hl r3_def by blast
qed

subsection \<open>Every parsed response\<close>

lemma status_inv_same: "same_status a b \<Longrightarrow> status_inv a \<Longrightarrow> status_inv b"
  by (simp add: same_status_def status_inv_def)

lemma hdr_inv_fields:
  "header a = header b \<Longrightarrow> content_length a = content_length b \<Longrightarrow>
   is_chunked a = is_chunked b \<Longrightarrow> hdr_inv a = hdr_inv b"
  unfolding hdr_inv_def by (erule ssubst)+ (rule refl)

lemma status_inv_fields:
  "http_version a = http_version b \<Longrightarrow> status_code a = status_code b \<Longrightarrow>
   status_message a = status_message b \<Longrightarrow> status_inv a = status_inv b"
  unfolding status_inv_def by (erule ssubst)+ (rule refl)

lemma parsed_inv:
  assumes "parseResponse L Response_init buf = Inr R"
  shows "status_inv R \<and> hdr_inv R \<and>
         (if is_chunked R then body R = [] else body_loop [] (body R) = body R)"
proof -
  obtain l rest r2 rest2 where gl: "getline LF buf = Some (l, rest)"
    and hl: "header_loop (parse_status_line Response_init l) rest = Inr (r2, rest2)"
    and co: "core R = core (if \<not> is_chunked r2 then r2\<lparr>body := body_loop [] rest2\<rparr> else r2)"
    using parseResponse_result [OF assms] by blast
  define r0 where "r0 = parse_status_line Response_init l"
  define r3 where "r3 = (if \<not> is_chunked r2 then r2\<lparr>body := body_loop [] rest2\<rparr> else r2)"
  have s0: "status_inv r0" unfolding r0_def by (rule parse_status_line_inv)
  have "hdr_inv r0 = hdr_inv Response_init"
    unfolding r0_def by (rule hdr_inv_fields) simp_all
  then have h0: "hdr_inv r0" using hdr_inv_init by simp
  have b0: "body r0 = []" unfolding r0_def by (simp add: Response_init_def)
  have 2: "hdr_inv r2" "same_status r0 r2"
    using header_loop_inv [OF hl [folded r0_def] h0] by simp_all
  have s2: "status_inv r2" using 2(2) s0 by (rule status_inv_same)
  have b2: "body r2 = []" using 2(2) b0 by (simp add: same_status_def)
  have "status_inv r3 = status_inv r2"
    by (rule status_inv_fields) (simp_all add: r3_def)
  then have s3: "status_inv r3" using s2 by simp
  have "hdr_inv r3 = hdr_inv r2"
    by (rule hdr_inv_fields) (simp_all add: r3_def)
  then have h3: "hdr_inv r3" using 2(1) by simp
  have b3: "if is_chunked r3 then body r3 = [] else body_loop [] (body r3) = body r3"
  proof (cases "is_chunked r2")
    case True
    then show ?thesis using b2 by (simp add: r3_def)
  next
    case False
    then show ?thesis by (simp add: r3_def body_loop_idem)
  qed
  have c: "core R = core r3" using co by (simp add: r3_def)
  have "status_inv R" using s3 status_inv_core [OF c] by simp
  moreover have "hdr_inv R" using h3 hdr_inv_core [OF c] by simp
  moreover have "is_chunked R = is_chunked r3" "body R = body r3"
    using c by (simp_all add: core_def)
  ultimately show ?thesis using b3 by simp
qed

lemma isspace_LF: "isspace LF"
  by (simp add: isspace_def)

lemma sorted_header_find:
  fixes h :: "(string \<times> string) list"
  shows "sorted_wrt (<) (map fst h) \<Longrightarrow> map_of h k = Some v \<longleftrightarrow> (k, v) \<in> set h"
proof -
  assume "sorted_wrt (<) (map fst h)"
  then have "sorted (map fst h) \<and> distinct (map fst h)" by (simp only: strict_sorted_iff)
  then have "distinct (map fst h)" by (rule conjunct2)
  then show ?thesis by simp
qed

lemma hdr_invD:
  assumes "hdr_inv r"
  shows "sorted_wrt (<) (map fst (header r))"
    and "\<forall>kv \<in> set (header r). hdr_ok kv"
    and "\<And>v. (HEADER_CONTENT_LEN, v) \<in> set (header r) \<Longrightarrow> stoi v = Inr (content_length r)"
    and "(\<And>v. (HEADER_CONTENT_LEN, v) \<notin> set (header r)) \<Longrightarrow> content_length r = - 1"
    and "\<And>v. \<not> is_chunked r \<Longrightarrow> (HEADER_TRANSFER, v) \<in> set (header r) \<Longrightarrow>
           str_find v HEADER_CHUNCK = None"
proof -
  note u = assms [unfolded hdr_inv_def]
  show "sorted_wrt (<) (map fst (header r))" by (rule u [THEN conjunct1])
  show "\<forall>kv \<in> set (header r). hdr_ok kv" by (rule u [THEN conjunct2, THEN conjunct1])
  show "stoi v = Inr (content_length r)" if "(HEADER_CONTENT_LEN, v) \<in> set (header r)" for v
    using u [THEN conjunct2, THEN conjunct2, THEN conjunct1] that by (elim allE impE) assumption+
  show "content_length r = - 1" if "\<And>v. (HEADER_CONTENT_LEN, v) \<notin> set (header r)"
    using u [THEN conjunct2, THEN conjunct2, THEN conjunct2, THEN conjunct1] that
    by (elim impE) (intro allI, assumption+)
  show "str_find v HEADER_CHUNCK = None"
    if "\<not> is_chunked r" "(HEADER_TRANSFER, v) \<in> set (header r)" for v
    using u [THEN conjunct2, THEN conjunct2, THEN conjunct2, THEN conjunct2] that
    by (elim impE allE) assumption+
qed

lemma status_invD:
  assumes "status_inv r"
  shows "\<And>c. c \<in> set (http_version r) \<Longrightarrow> \<not> isspace c"
    and "LF \<notin> set (status_message r)"
proof -
  note u = assms [unfolded status_inv_def]
  show "\<not> isspace c" if "c \<in> set (http_version r)" for c
    using u [THEN conjunct1] that by (rule bspec)
  show "LF \<notin> set (status_message r)" by (rule u [THEN conjunct2, THEN conjunct1])
qed

section \<open>The claims about the response parser and the caching decision\<close>

text \<open>
  Claim C1 says that a \<open>Cache-Control\<close> value with \<open>no-store\<close>, and none of \<open>no-cache\<close>,
  \<open>must-revalidate\<close>, \<open>proxy-revalidate\<close>, leaves \<open>no_store\<close> true and \<open>cache_mode\<close> equal to
  \<open>CACHE_NO_STORE\<close>. The code sets both at the directive, and then its last test, which
  reads \<open>no_cache\<close> twice and \<open>no_store\<close> never, puts \<open>cache_mode\<close> back to \<open>CACHE_NORMAL\<close>:
  on the response \<open>HTTP/1.1 200 OK\<close> with the one header \<open>Cache-Control: no-store\<close> the
  flag is true and the mode is \<open>CACHE_NORMAL\<close>.
\<close>

theorem no_store_mode_is_overwritten:
  "map_sum id (\<lambda>R. (no_store R, cache_mode R = CACHE_NO_STORE, cache_mode R = CACHE_NORMAL))
     (parseResponse L0 Response_init buf_no_store) = Inr (True, False, True)"
  by code_simp

text \<open>
  Claim C3 says that the \<open>s-maxage\<close> rule is applied to the directives that begin with
  \<open>s-maxage=\<close> and to no other. The code tests \<open>directive.find("s-maxage=")\<close> for being
  non-zero, which holds exactly when the directive does not begin with \<open>s-maxage=\<close>. So
  \<open>s-maxage=10, max-age=5\<close> ends with \<open>max_age = 5\<close>, the directive \<open>s-maxage=10\<close> having
  changed nothing; and \<open>max-age=60, immutable\<close> ends with \<open>max_age = -1\<close>, since \<open>immutable\<close>
  enters the branch, \<open>substr(9)\<close> of it is empty and \<open>stoi\<close> throws.
\<close>

theorem smaxage_rule_is_inverted:
  "map_sum id max_age (parseResponse L0 Response_init buf_smaxage) = Inr 5 \<and>
   map_sum id max_age (parseResponse L0 Response_init buf_immutable) = Inr (- 1) \<and>
   fst (process_directive (Response_init\<lparr>max_age := 60\<rparr>) False ''immutable'')
     = Response_init\<lparr>max_age := - 1\<rparr> \<and>
   fst (process_directive Response_init False ''s-maxage=10'') = Response_init"
  by code_simp

text \<open>
  Claim C8, amended. For every response \<open>R\<close> that \<open>parseResponse\<close> returns on any buffer,
  parsing \<open>R.toString()\<close> succeeds and gives a response with the same \<open>status_code\<close>,
  header map, \<open>body\<close> and \<open>content_length\<close>. Its \<open>is_chunked\<close> flag is true exactly when
  the \<open>Transfer-Encoding\<close> value that \<open>R\<close> stores contains \<open>chunked\<close>, and then the flag of
  \<open>R\<close> is true as well; so the flag is the same unless \<open>R\<close> has it from a
  \<open>Transfer-Encoding\<close> line that a later one without \<open>chunked\<close> replaced in the map.
\<close>

theorem reparse_toString:
  assumes "parseResponse L Response_init buf = Inr R"
  shows "\<exists>R'. parseResponse L Response_init (toString R) = Inr R' \<and>
           status_code R' = status_code R \<and> header R' = header R \<and> body R' = body R \<and>
           content_length R' = content_length R \<and>
           (is_chunked R' \<longleftrightarrow>
              (\<exists>v. map_of (header R) HEADER_TRANSFER = Some v \<and> str_find v HEADER_CHUNCK \<noteq> None)) \<and>
           (is_chunked R' \<longrightarrow> is_chunked R)"
proof -
  note p = parsed_inv [OF assms]
  have inv: "status_inv R" "hdr_inv R"
    by (rule p [THEN conjunct1], rule p [THEN conjunct2, THEN conjunct1])
  have bR: "if is_chunked R then body R = [] else body_loop [] (body R) = body R"
    by (rule p [THEN conjunct2, THEN conjunct2])
  define sl where "sl = http_version R @ SP # show_int (status_code R) @ SP # status_message R @ [CR]"
  define hs where "hs = concat (map header_line (header R))"
  have ts: "toString R = sl @ LF # (hs @ CR # LF # body R)"
    by (simp add: toString_def sl_def hs_def SP_def)
  have "LF \<notin> set (http_version R)" "LF \<notin> set (status_message R)"
    using status_invD [OF inv(1)] isspace_LF by blast+
  moreover have "LF \<notin> set (show_int (status_code R))"
    using show_int_no_space isspace_LF by blast
  moreover have "SP \<noteq> LF" "CR \<noteq> LF" by (simp_all add: SP_def CR_def LF_def)
  ultimately have "LF \<notin> set sl" by (simp add: sl_def)
  then have gl: "getline LF (toString R) = Some (sl, hs @ CR # LF # body R)"
    unfolding ts by (rule getline_append)
  define r0 where "r0 = parse_status_line Response_init sl"
  have c0: "status_code r0 = status_code R"
    unfolding r0_def sl_def using inv(1) by (rule status_reparse)
  have f0: "header r0 = []" "\<not> is_chunked r0" "body r0 = []"
    unfolding r0_def by (simp_all add: Response_init_def)
  note D = hdr_invD [OF inv(2)]
  have srt: "sorted_wrt (<) (map fst (header R))" by (rule D(1))
  have oks: "\<forall>kv \<in> set (header R). hdr_ok kv" by (rule D(2))
  have cls: "\<forall>v. (HEADER_CONTENT_LEN, v) \<in> set (header R) \<longrightarrow> (\<exists>n. stoi v = Inr n)"
    using D(3) by blast
  obtain r' where hl: "header_loop r0 (hs @ CR # LF # body R) = Inr (r', body R)"
    and h': "header r' = foldl (\<lambda>h kv. map_assign (fst kv) (snd kv) h) (header r0) (header R)"
    and ch': "is_chunked r' \<longrightarrow> is_chunked r0 \<or>
              (\<exists>v. (HEADER_TRANSFER, v) \<in> set (header R) \<and> str_find v HEADER_CHUNCK \<noteq> None)"
    and st': "same_status r0 r'"
    unfolding hs_def using header_loop_generated [OF oks cls, of r0 "body R"] by blast
  have hdr: "header r' = header R"
    unfolding h' f0(1) using foldl_map_assign_sorted [of "[]" "header R"] srt by simp
  define r3 where "r3 = (if \<not> is_chunked r' then r'\<lparr>body := body_loop [] (body R)\<rparr> else r')"
  define R' where "R' = setExpiredTime L (parseCacheControl r3)"
  have parse: "parseResponse L Response_init (toString R) = Inr R'"
    unfolding parseResponse_def gl using hl [unfolded r0_def]
    by (simp add: R'_def r3_def Let_def)
  have c: "core R' = core r3"
    by (simp add: R'_def setExpiredTime_core parseCacheControl_core)
  have inv': "hdr_inv R'" by (rule parsed_inv [OF parse, THEN conjunct2, THEN conjunct1])
  have 1: "status_code R' = status_code R"
    using c st' c0 by (simp add: core_def r3_def same_status_def)
  have 2: "header R' = header R"
    using c hdr by (simp add: core_def r3_def)
  note D' = hdr_invD [OF inv', unfolded 2]
  have chunk_fwd: "\<exists>v. (HEADER_TRANSFER, v) \<in> set (header R) \<and> str_find v HEADER_CHUNCK \<noteq> None"
    if "is_chunked R'"
  proof -
    have "is_chunked r'" using that c by (simp add: core_def r3_def split: if_splits)
    then show ?thesis using ch' f0(2) by simp
  qed
  have chunk_bwd: "is_chunked R'"
    if "(HEADER_TRANSFER, v) \<in> set (header R)" "str_find v HEADER_CHUNCK \<noteq> None" for v
    using that D'(5) [of v] by (cases "is_chunked R'") simp_all
  have 5: "is_chunked R' \<longleftrightarrow>
     (\<exists>v. map_of (header R) HEADER_TRANSFER = Some v \<and> str_find v HEADER_CHUNCK \<noteq> None)"
    unfolding sorted_header_find [OF srt] using chunk_fwd chunk_bwd by blast
  have 6: "is_chunked R' \<longrightarrow> is_chunked R"
  proof
    assume "is_chunked R'"
    then obtain v where v: "(HEADER_TRANSFER, v) \<in> set (header R)"
      "str_find v HEADER_CHUNCK \<noteq> None"
      using chunk_fwd by blast
    show "is_chunked R"
    proof (rule ccontr)
      assume "\<not> is_chunked R"
      then have "str_find v HEADER_CHUNCK = None" using v(1) by (rule D(5))
      with v(2) show False by simp
    qed
  qed
  have 4: "content_length R' = content_length R"
  proof (cases "\<exists>v. (HEADER_CONTENT_LEN, v) \<in> set (header R)")
    case True
    then obtain v where v: "(HEADER_CONTENT_LEN, v) \<in> set (header R)" by blast
    then have "stoi v = Inr (content_length R)" by (rule D(3))
    moreover have "stoi v = Inr (content_length R')" using v by (rule D'(3))
    ultimately show ?thesis by simp
  next
    case False
    then have "content_length R = - 1" using D(4) by blast
    moreover have "content_length R' = - 1" using False D'(4) by blast
    ultimately show ?thesis by simp
  qed
  have 3: "body R' = body R"
  proof (cases "is_chunked R'")
    case True
    then have "is_chunked r'" using c by (simp add: core_def r3_def split: if_splits)
    then have "body R' = body r'" using c by (simp add: core_def r3_def)
    also have "\<dots> = []" using st' f0(3) by (simp add: same_status_def)
    also have "[] = body R" using True 6 bR by simp
    finally show ?thesis .
  next
    case False
    then have "\<not> is_chunked r'" using c by (simp add: core_def r3_def split: if_splits)
    then have "body R' = body_loop [] (body R)" using c by (simp add: core_def r3_def)
    also have "\<dots> = body R" using bR by (cases "is_chunked R") simp_all
    finally show ?thesis .
  qed
  show ?thesis using parse 1 2 3 4 5 6 by blast
qed

lemma parse_buf_ok: "parseResponse L0 Response_init buf_ok = Inr resp_ok"
  by code_simp

lemma parse_resp_ok: "parseResponse L0 Response_init (toString resp_ok) = Inr resp_ok2"
  by code_simp

theorem reparse_toString_witness:
  "parseResponse L0 Response_init buf_ok = Inr resp_ok \<and>
   parseResponse L0 Response_init (toString resp_ok) = Inr resp_ok2 \<and>
   status_code resp_ok2 = status_code resp_ok \<and> header resp_ok2 = header resp_ok \<and>
   body resp_ok2 = body resp_ok \<and> content_length resp_ok2 = content_length resp_ok \<and>
   is_chunked resp_ok2 = is_chunked resp_ok"
  using reparse_toString [OF parse_buf_ok] parse_buf_ok parse_resp_ok
  by (auto simp: resp_ok2_def)

text \<open>
  As claim C8 is worded, the \<open>is_chunked\<close> flag should survive as well. It does not on
  a buffer with two \<open>Transfer-Encoding\<close> lines of which only the first has \<open>chunked\<close>: the
  first line sets the flag, the second replaces the first in the map, \<open>toString\<close> writes
  the second only, and the second parse leaves the flag false.
\<close>

theorem reparse_toString_counterexample:
  "parseResponse L0 Response_init buf_te = Inr resp_te \<and>
   parseResponse L0 Response_init (toString resp_te) = Inr resp_te2 \<and>
   is_chunked resp_te \<and> \<not> is_chunked resp_te2"
  by code_simp

text \<open>
  Claim C10. \<open>handleCaching\<close> calls \<open>isCacheable\<close> with its default argument \<open>false\<close>; for a
  response whose \<open>cache_visibility\<close> is \<open>CACHE_PRIVATE\<close> the answer is no, whatever its
  status code and mode, and \<open>handleCaching\<close> then logs \<open>NOT_CACHEABLE\<close>, deletes the response
  and leaves the cache as it was: \<open>put\<close> is not called.
\<close>

theorem private_response_never_cached:
  "cache_visibility r = CACHE_PRIVATE \<Longrightarrow>
   \<not> isCacheable r False \<and>
   handleCaching L c r u request_id now =
     (c, [log_cache_response request_id NOT_CACHEABLE (not_cacheable_reason r)], True)"
  by (simp add: isCacheable_def handleCaching_def)

lemma parse_buf_private: "parseResponse L0 Response_init buf_private = Inr resp_private"
  by code_simp

theorem private_response_never_cached_witness:
  "parseResponse L0 Response_init buf_private = Inr resp_private \<and>
   cache_visibility resp_private = CACHE_PRIVATE \<and> status_code resp_private = 200 \<and>
   handleCaching L0 cache1 resp_private ''a'' 7 5 =
     (cache1, [log_cache_response 7 NOT_CACHEABLE ''unknow''], True)"
proof -
  have v: "cache_visibility resp_private = CACHE_PRIVATE"
    by (simp add: resp_private_def)
  have n: "not_cacheable_reason resp_private = ''unknow''"
    by (simp add: resp_private_def not_cacheable_reason_def CACHE_NORMAL_def CACHE_NO_STORE_def)
  show ?thesis
    using private_response_never_cached [OF v, of L0 cache1 "''a''" 7 5] parse_buf_private v n
    by (simp add: resp_private_def)
qed

end
